theory Spec2Isabelle
  imports Complex_Main "HOL-Library.Multiset" "HOL-Library.Sublist" "HOL-Library.AList"
begin

section \<open>Exceptions and tensors\<close>

text \<open>
  The exceptions the modelled code can raise. \<open>StopIteration\<close> is the signal an
  exhausted Python iterator raises.
\<close>

datatype py_error = ValueError | IndexError | TypeError | StopIteration

text \<open>
  A numpy array is its shape together with its elements in row-major (C) order. All
  tensors of one tree carry the same element type \<open>'a\<close>. numpy keeps the element
  count equal to the product of the shape; \<open>wf_tensor\<close> states it.
\<close>

datatype 'a tensor = Tensor (shape: "nat list") (elems: "'a list")

definition np_size :: "'a tensor \<Rightarrow> nat" where
  "np_size x = prod_list (shape x)"

definition ndim :: "'a tensor \<Rightarrow> nat" where
  "ndim x = length (shape x)"

definition wf_tensor :: "'a tensor \<Rightarrow> bool" where
  "wf_tensor x \<longleftrightarrow> length (elems x) = prod_list (shape x)"

definition wf_tree :: "'a tensor list \<Rightarrow> bool" where
  "wf_tree ws \<longleftrightarrow> list_all wf_tensor ws"

text \<open>\<open>xs[i:j]\<close> for \<open>0 \<le> i\<close> and \<open>0 \<le> j\<close>: Python clamps both ends to the length.\<close>

definition slice :: "'a list \<Rightarrow> nat \<Rightarrow> nat \<Rightarrow> 'a list" where
  "slice xs i j = take (j - i) (drop i xs)"

text \<open>\<open>np.ravel(x)\<close>: the elements in row-major order.\<close>

definition np_ravel :: "'a tensor \<Rightarrow> 'a list" where
  "np_ravel x = elems x"

text \<open>\<open>np.reshape(v, shape)\<close> of a vector: a ValueError unless the sizes agree.\<close>

definition np_reshape :: "'a list \<Rightarrow> nat list \<Rightarrow> py_error + 'a tensor" where
  "np_reshape v shp = (if length v = prod_list shp then Inr (Tensor shp v) else Inl ValueError)"

section \<open>ravel, unravel, unraveller\<close>

text \<open>
  \<^verbatim>\<open>
  def ravel(weights):
      return np.concatenate([np.ravel(x) for x in weights])
  \<close>
  \<open>np.concatenate\<close> of an empty sequence raises
  \<open>ValueError: need at least one array to concatenate\<close>.
\<close>

definition ravel :: "'a tensor list \<Rightarrow> py_error + 'a list" where
  "ravel weights =
     (if weights = [] then Inl ValueError else Inr (concat (map np_ravel weights)))"

text \<open>
  \<^verbatim>\<open>
  def unravel(weights, skeleton):
      i = 0
      unravelled_weights = []
      for shape, length in skeleton:
          unravelled_weights.append(np.reshape(weights[i:i + length], shape))
          i += length
      return unravelled_weights
  \<close>
  The loop carries \<open>i\<close> and the list built so far; a failing reshape ends it.
\<close>

fun unravel_loop ::
  "'a list \<Rightarrow> nat \<Rightarrow> 'a tensor list \<Rightarrow> (nat list \<times> nat) list \<Rightarrow> py_error + 'a tensor list"
where
  "unravel_loop weights i unravelled_weights [] = Inr unravelled_weights"
| "unravel_loop weights i unravelled_weights ((shp, len) # skeleton) =
     (case np_reshape (slice weights i (i + len)) shp of
        Inl e \<Rightarrow> Inl e
      | Inr t \<Rightarrow> unravel_loop weights (i + len) (unravelled_weights @ [t]) skeleton)"

definition unravel :: "'a list \<Rightarrow> (nat list \<times> nat) list \<Rightarrow> py_error + 'a tensor list" where
  "unravel weights skeleton = unravel_loop weights 0 [] skeleton"

text \<open>
  \<^verbatim>\<open>
  def unraveller(weights):
      return [(x.shape, x.size) for x in weights]
  \<close>
\<close>

definition unraveller :: "'a tensor list \<Rightarrow> (nat list \<times> nat) list" where
  "unraveller weights = map (\<lambda>x. (shape x, np_size x)) weights"

text \<open>An unravel skeleton whose recorded lengths are the products of its shapes.\<close>

definition consistent_skeleton :: "(nat list \<times> nat) list \<Rightarrow> bool" where
  "consistent_skeleton skeleton \<longleftrightarrow> list_all (\<lambda>(shp, len). len = prod_list shp) skeleton"

section \<open>Properties of ravel and unravel\<close>

lemma slice_mid: "slice (pre @ xs @ post) (length pre) (length pre + length xs) = xs"
  by (simp add: slice_def)

lemma unravel_loop_roundtrip:
  "list_all wf_tensor ts \<Longrightarrow>
   unravel_loop (pre @ concat (map np_ravel ts) @ post) (length pre) acc (unraveller ts)
     = Inr (acc @ ts)"
proof (induction ts arbitrary: pre acc)
  case Nil
  then show ?case by (simp add: unraveller_def)
next
  case (Cons t ts)
  from Cons.prems have rest: "list_all wf_tensor ts" by simp
  from Cons.prems have wt: "length (elems t) = prod_list (shape t)"
    by (simp add: wf_tensor_def)
  have sl: "slice (pre @ concat (map np_ravel (t # ts)) @ post) (length pre)
              (length pre + np_size t) = elems t"
    using slice_mid [of pre "elems t" "concat (map np_ravel ts) @ post"] wt
    by (simp add: np_ravel_def np_size_def)
  have step: "unravel_loop (pre @ concat (map np_ravel (t # ts)) @ post) (length pre) acc
                (unraveller (t # ts))
              = unravel_loop ((pre @ elems t) @ concat (map np_ravel ts) @ post)
                  (length (pre @ elems t)) (acc @ [t]) (unraveller ts)"
    using sl wt by (simp add: unraveller_def np_reshape_def np_size_def np_ravel_def)
  show ?case
    unfolding step using Cons.IH [OF rest, of "pre @ elems t" "acc @ [t]"] by simp
qed

lemma unravel_loop_short:
  "list_all (\<lambda>(shp, len). len = prod_list shp) sk \<Longrightarrow> length v < i + sum_list (map snd sk) \<Longrightarrow>
   i \<le> length v \<Longrightarrow> unravel_loop v i acc sk = Inl ValueError"
proof (induction sk arbitrary: i acc)
  case Nil
  then show ?case by simp
next
  case (Cons p sk)
  obtain shp len where p: "p = (shp, len)" by (cases p)
  from Cons.prems p have len: "len = prod_list shp"
    and rest: "list_all (\<lambda>(shp, len). len = prod_list shp) sk" by simp_all
  show ?case
  proof (cases "i + len \<le> length v")
    case True
    then have "length (slice v i (i + len)) = prod_list shp"
      using len by (simp add: slice_def)
    moreover have "unravel_loop v (i + len) (acc @ [Tensor shp (slice v i (i + len))]) sk
                     = Inl ValueError"
      using Cons.IH [OF rest, of "i + len"] Cons.prems(2) True p by simp
    ultimately show ?thesis by (simp add: p np_reshape_def)
  next
    case False
    then have "length (slice v i (i + len)) < len"
      using Cons.prems(3) by (simp add: slice_def)
    then show ?thesis using len by (simp add: p np_reshape_def)
  qed
qed

lemma unravel_loop_enough:
  "list_all (\<lambda>(shp, len). len = prod_list shp) sk \<Longrightarrow> i + sum_list (map snd sk) \<le> length v \<Longrightarrow>
   \<exists>ts. unravel_loop v i acc sk = Inr (acc @ ts) \<and> length ts = length sk
        \<and> concat (map elems ts) = slice v i (i + sum_list (map snd sk))
        \<and> map shape ts = map fst sk"
proof (induction sk arbitrary: i acc)
  case Nil
  then show ?case by (simp add: slice_def)
next
  case (Cons p sk)
  obtain shp len where p: "p = (shp, len)" by (cases p)
  from Cons.prems p have len: "len = prod_list shp"
    and rest: "list_all (\<lambda>(shp, len). len = prod_list shp) sk" by simp_all
  from Cons.prems(2) p have bound: "(i + len) + sum_list (map snd sk) \<le> length v" by simp
  let ?t = "Tensor shp (slice v i (i + len))"
  have sz: "length (slice v i (i + len)) = prod_list shp"
    using bound len by (simp add: slice_def)
  from Cons.IH [OF rest bound, of "acc @ [?t]"]
  obtain ts where ts: "unravel_loop v (i + len) (acc @ [?t]) sk = Inr ((acc @ [?t]) @ ts)"
    "length ts = length sk"
    "concat (map elems ts) = slice v (i + len) (i + len + sum_list (map snd sk))"
    "map shape ts = map fst sk" by blast
  have cat: "slice v i (i + len) @ slice v (i + len) (i + len + sum_list (map snd sk))
               = slice v i (i + (len + sum_list (map snd sk)))"
    by (simp add: slice_def take_add add.commute)
  have "unravel_loop v i acc (p # sk) = Inr (acc @ (?t # ts))"
    using ts(1) sz by (simp add: p np_reshape_def)
  moreover have "length (?t # ts) = length (p # sk)" using ts(2) by simp
  moreover have "concat (map elems (?t # ts)) = slice v i (i + sum_list (map snd (p # sk)))"
    using ts(3) cat by (simp add: p)
  moreover have "map shape (?t # ts) = map fst (p # sk)" using ts(4) by (simp add: p)
  ultimately show ?case by blast
qed

text \<open>
  C1, as stated, fails on the empty tree: \<open>np.concatenate\<close> refuses an empty sequence, so
  \<open>ravel([])\<close> raises before \<open>unravel\<close> is ever called.
\<close>

theorem ravel_empty_tree_raises:
  "ravel ([] :: int tensor list) = Inl ValueError"
  by (simp add: ravel_def)

text \<open>
  C1 (amended): for every non-empty weight tree \<open>T\<close> of numpy arrays,
  \<open>ravel T\<close> returns a vector \<open>v\<close> and \<open>unravel v (unraveller T)\<close> returns \<open>T\<close> itself:
  the same length and, at every position, the same shape and the same values.
\<close>

theorem unravel_ravel_roundtrip:
  assumes "wf_tree T" and "T \<noteq> []"
  shows "\<exists>v. ravel T = Inr v \<and> unravel v (unraveller T) = Inr T"
proof -
  have "unravel_loop ([] @ concat (map np_ravel T) @ []) (length ([] :: 'a list)) []
          (unraveller T) = Inr ([] @ T)"
    using assms(1) unfolding wf_tree_def by (rule unravel_loop_roundtrip)
  then show ?thesis using assms(2) by (simp add: ravel_def unravel_def)
qed

theorem unravel_ravel_roundtrip_witness:
  "wf_tree [Tensor [2, 2] [1, 2, 3, 4 :: int], Tensor [] [5], Tensor [3] [6, 7, 8]]
   \<and> ravel [Tensor [2, 2] [1, 2, 3, 4 :: int], Tensor [] [5], Tensor [3] [6, 7, 8]]
       = Inr [1, 2, 3, 4, 5, 6, 7, 8]
   \<and> unravel [1, 2, 3, 4, 5, 6, 7, 8 :: int]
       (unraveller [Tensor [2, 2] [1, 2, 3, 4 :: int], Tensor [] [5], Tensor [3] [6, 7, 8]])
       = Inr [Tensor [2, 2] [1, 2, 3, 4], Tensor [] [5], Tensor [3] [6, 7, 8]]"
proof -
  let ?T = "[Tensor [2, 2] [1, 2, 3, 4 :: int], Tensor [] [5], Tensor [3] [6, 7, 8]]"
  have wf: "wf_tree ?T" by (simp add: wf_tree_def wf_tensor_def)
  have ne: "?T \<noteq> []" by simp
  have rv: "ravel ?T = Inr [1, 2, 3, 4, 5, 6, 7, 8]" by (simp add: ravel_def np_ravel_def)
  from unravel_ravel_roundtrip [OF wf ne] rv wf show ?thesis by simp
qed

text \<open>
  C5, as stated, fails in two ways. A vector longer than the recorded total is accepted and
  its tail ignored; and a skeleton entry whose recorded length exceeds the product of its
  shape lets a too-short vector through, since the slice is clamped before the reshape.
\<close>

theorem unravel_length_mismatch_returns:
  "unravel [1, 2, 3 :: int] [([2], 2)] = Inr [Tensor [2] [1, 2]]
   \<and> unravel [1, 2 :: int] [([2], 5)] = Inr [Tensor [2] [1, 2]]"
  by (simp add: unravel_def np_reshape_def slice_def)

text \<open>
  C5 (amended): for every flat vector \<open>v\<close> and every unravel skeleton \<open>s\<close> whose recorded
  lengths are the products of its shapes (as \<open>unraveller\<close> builds them), \<open>unravel v s\<close>
  raises exactly when the recorded lengths sum to more than the length of \<open>v\<close>, and the
  error is the reshape's ValueError. When they sum to the length of \<open>v\<close> or to less,
  it returns one tensor per skeleton entry, with the recorded shapes, holding the leading
  elements of \<open>v\<close> in order; elements of \<open>v\<close> beyond the total are ignored.
\<close>

theorem unravel_raises_iff_too_short:
  assumes "consistent_skeleton s"
  shows "(length v < sum_list (map snd s) \<longrightarrow> unravel v s = Inl ValueError)
       \<and> (sum_list (map snd s) \<le> length v \<longrightarrow>
            (\<exists>ts. unravel v s = Inr ts \<and> length ts = length s \<and> map shape ts = map fst s
                 \<and> concat (map elems ts) = take (sum_list (map snd s)) v))"
proof -
  from assms have c: "list_all (\<lambda>(shp, len). len = prod_list shp) s"
    by (simp add: consistent_skeleton_def)
  have short: "unravel v s = Inl ValueError" if "length v < sum_list (map snd s)"
    using unravel_loop_short [OF c, of v 0 "[]"] that by (simp add: unravel_def)
  have long: "\<exists>ts. unravel v s = Inr ts \<and> length ts = length s \<and> map shape ts = map fst s
                 \<and> concat (map elems ts) = take (sum_list (map snd s)) v"
    if "sum_list (map snd s) \<le> length v"
    using unravel_loop_enough [OF c, of 0 v "[]"] that by (auto simp: unravel_def slice_def)
  from short long show ?thesis by blast
qed

theorem unravel_raises_iff_too_short_witness:
  "consistent_skeleton [([2], 2), ([1, 2], 2)]
   \<and> unravel [1, 2, 3 :: int] [([2], 2), ([1, 2], 2)] = Inl ValueError
   \<and> (\<exists>ts. unravel [1, 2, 3, 4, 5 :: int] [([2], 2), ([1, 2], 2)] = Inr ts
         \<and> concat (map elems ts) = [1, 2, 3, 4])"
proof -
  let ?s = "[([2], 2), ([1, 2], 2)] :: (nat list \<times> nat) list"
  have c: "consistent_skeleton ?s" by (simp add: consistent_skeleton_def)
  from unravel_raises_iff_too_short [OF c, of "[1, 2, 3 :: int]"]
  have a: "unravel [1, 2, 3 :: int] ?s = Inl ValueError" by simp
  from unravel_raises_iff_too_short [OF c, of "[1, 2, 3, 4, 5 :: int]"]
  have b: "\<exists>ts. unravel [1, 2, 3, 4, 5 :: int] ?s = Inr ts
         \<and> concat (map elems ts) = [1, 2, 3, 4]" by auto
  from a b c show ?thesis by blast
qed

section \<open>Row-major indexing, slicing and padding\<close>

text \<open>
  The \<open>i\<close>-th block of \<open>m\<close> consecutive elements: for a tensor of shape \<open>n # ns\<close> and
  \<open>m = prod_list ns\<close> it holds the sub-tensor \<open>x[i]\<close>.
\<close>

definition block :: "nat \<Rightarrow> nat \<Rightarrow> 'a list \<Rightarrow> 'a list" where
  "block m i xs = take m (drop (i * m) xs)"

text \<open>
  The position of the element with multi-index \<open>idx\<close> in the row-major element list, the
  indices that lie within a shape, and the element \<open>x[i0, i1, ...]\<close> itself. \<open>nd_at\<close> is
  used to state what the operations compute; it is only read at indices within the shape.
\<close>

fun offset :: "nat list \<Rightarrow> nat list \<Rightarrow> nat" where
  "offset (n # ns) (i # is) = i * prod_list ns + offset ns is"
| "offset ns is = 0"

definition in_bounds :: "nat list \<Rightarrow> nat list \<Rightarrow> bool" where
  "in_bounds shp idx \<longleftrightarrow> list_all2 (<) idx shp"

definition nd_at :: "'a tensor \<Rightarrow> nat list \<Rightarrow> 'a" where
  "nd_at x idx = elems x ! offset (shape x) idx"

text \<open>
  Basic slicing \<open>x[0:d0, 0:d1, ...]\<close> with one \<open>slice(d)\<close> per entry of \<open>ds\<close>: each slice
  clamps to the axis, so the axis keeps \<open>min d n\<close> leading positions; axes beyond the
  given slices are kept whole.
\<close>

fun sliced_shape :: "nat list \<Rightarrow> nat list \<Rightarrow> nat list" where
  "sliced_shape (n # ns) (d # ds) = min d n # sliced_shape ns ds"
| "sliced_shape ns ds = ns"

fun slice_axes :: "nat list \<Rightarrow> nat list \<Rightarrow> 'a list \<Rightarrow> 'a list" where
  "slice_axes (n # ns) (d # ds) xs =
     concat (map (\<lambda>i. slice_axes ns ds (block (prod_list ns) i xs)) [0..<min d n])"
| "slice_axes ns ds xs = xs"

subsection \<open>Facts about blocks and slices\<close>

lemma length_concat_upt:
  "(\<And>j. j < k \<Longrightarrow> length (F j) = L) \<Longrightarrow> length (concat (map F [0..<k])) = k * L"
  by (induction k) simp_all

lemma nth_concat_upt:
  "(\<And>j. j < k \<Longrightarrow> length (F j) = L) \<Longrightarrow> i < k \<Longrightarrow> r < L \<Longrightarrow>
   concat (map F [0..<k]) ! (i * L + r) = F i ! r"
proof (induction k)
  case 0
  then show ?case by simp
next
  case (Suc k)
  have len: "length (concat (map F [0..<k])) = k * L"
    using Suc.prems(1) by (intro length_concat_upt) simp
  show ?case
  proof (cases "i < k")
    case True
    then have "Suc i \<le> k" by simp
    then have "Suc i * L \<le> k * L" by (rule mult_le_mono1)
    then have "i * L + r < k * L" using Suc.prems(3) by simp
    then show ?thesis using Suc.IH [OF _ True Suc.prems(3)] Suc.prems(1) len
      by (simp add: nth_append)
  next
    case False
    then have "i = k" using Suc.prems(2) by simp
    then show ?thesis using len by (simp add: nth_append)
  qed
qed

lemma offset_less: "in_bounds ns idx \<Longrightarrow> offset ns idx < prod_list ns"
  unfolding in_bounds_def
proof (induction idx ns rule: list_all2_induct)
  case Nil
  then show ?case by simp
next
  case (Cons i idx n ns)
  have "Suc i \<le> n" using Cons.hyps(1) by simp
  then have "Suc i * prod_list ns \<le> n * prod_list ns" by (rule mult_le_mono1)
  then show ?case using Cons.IH by simp
qed

lemma length_block:
  "Suc i * m \<le> length xs \<Longrightarrow> length (block m i xs) = m"
  by (simp add: block_def)

lemma block_in_range:
  assumes "length xs = n * m" "i < n"
  shows "length (block m i xs) = m"
proof -
  have "Suc i \<le> n" using assms(2) by simp
  then have "Suc i * m \<le> n * m" by (rule mult_le_mono1)
  then show ?thesis using assms(1) by (intro length_block) simp
qed

lemma nth_block: "r < m \<Longrightarrow> length (block m i xs) = m \<Longrightarrow> block m i xs ! r = xs ! (i * m + r)"
  by (simp add: block_def)

lemma length_slice_axes:
  "length xs = prod_list ns \<Longrightarrow> length (slice_axes ns ds xs) = prod_list (sliced_shape ns ds)"
proof (induction ns ds xs rule: slice_axes.induct)
  case (1 n ns d ds xs)
  have "length (slice_axes ns ds (block (prod_list ns) j xs)) = prod_list (sliced_shape ns ds)"
    if "j < min d n" for j
  proof (rule "1.IH")
    show "j \<in> set [0..<min d n]" using that by simp
    show "length (block (prod_list ns) j xs) = prod_list ns"
      using block_in_range [of xs n "prod_list ns" j] that "1.prems" by simp
  qed
  then have "length (concat (map (\<lambda>j. slice_axes ns ds (block (prod_list ns) j xs)) [0..<min d n]))
               = min d n * prod_list (sliced_shape ns ds)"
    by (rule length_concat_upt)
  then show ?case by simp
qed simp_all

lemma in_bounds_sliced: "in_bounds (sliced_shape ns ds) idx \<Longrightarrow> in_bounds ns idx"
proof (induction ns ds arbitrary: idx rule: sliced_shape.induct)
  case (1 n ns d ds)
  then show ?case by (cases idx) (auto simp: in_bounds_def)
qed simp_all

lemma nth_slice_axes:
  "length xs = prod_list ns \<Longrightarrow> in_bounds (sliced_shape ns ds) idx \<Longrightarrow>
   slice_axes ns ds xs ! offset (sliced_shape ns ds) idx = xs ! offset ns idx"
proof (induction ns ds xs arbitrary: idx rule: slice_axes.induct)
  case (1 n ns d ds xs)
  from "1.prems"(2) obtain i rest where idx: "idx = i # rest" and i: "i < min d n"
    and rest: "in_bounds (sliced_shape ns ds) rest"
    by (cases idx) (auto simp: in_bounds_def)
  let ?m = "prod_list ns"
  let ?F = "\<lambda>j. slice_axes ns ds (block ?m j xs)"
  have blk: "length (block ?m j xs) = ?m" if "j < min d n" for j
    using block_in_range [of xs n ?m j] that "1.prems"(1) by simp
  have lenF: "length (?F j) = prod_list (sliced_shape ns ds)" if "j < min d n" for j
    using blk [OF that] by (rule length_slice_axes)
  have r: "offset (sliced_shape ns ds) rest < prod_list (sliced_shape ns ds)"
    using rest by (rule offset_less)
  have r': "offset ns rest < ?m"
    using in_bounds_sliced [OF rest] by (rule offset_less)
  have "slice_axes (n # ns) (d # ds) xs ! offset (sliced_shape (n # ns) (d # ds)) idx
          = ?F i ! offset (sliced_shape ns ds) rest"
    using nth_concat_upt [of "min d n" ?F "prod_list (sliced_shape ns ds)" i, OF lenF i r]
    by (simp add: idx)
  also have "\<dots> = block ?m i xs ! offset ns rest"
    using i blk [OF i] rest by (intro "1.IH") simp_all
  also have "\<dots> = xs ! (i * ?m + offset ns rest)"
    using r' blk [OF i] by (rule nth_block)
  finally show ?case by (simp add: idx)
qed simp_all


subsection \<open>Padding\<close>

text \<open>
  Constant-mode padding with zeros at the trailing edge of each axis:
  \<open>np.pad(x, ((0, p0), (0, p1), ...))\<close> once numpy has one pair per axis.
\<close>

fun padded_shape :: "nat list \<Rightarrow> nat list \<Rightarrow> nat list" where
  "padded_shape (n # ns) (p # ps) = (n + p) # padded_shape ns ps"
| "padded_shape ns ps = ns"

fun pad_axes :: "nat list \<Rightarrow> nat list \<Rightarrow> 'a::zero list \<Rightarrow> 'a list" where
  "pad_axes (n # ns) (p # ps) xs =
     concat (map (\<lambda>i. pad_axes ns ps (block (prod_list ns) i xs)) [0..<n])
       @ replicate (p * prod_list (padded_shape ns ps)) 0"
| "pad_axes ns ps xs = xs"

definition pad_tensor :: "'a::zero tensor \<Rightarrow> nat list \<Rightarrow> 'a tensor" where
  "pad_tensor x ps = Tensor (padded_shape (shape x) ps) (pad_axes (shape x) ps (elems x))"

text \<open>
  \<open>np.pad(x, tuple((0, a) for a in after))\<close>, as \<open>expand\<close> calls it. numpy first turns
  the pad widths into an array and requires an integer dtype: the empty tuple becomes an
  empty float array, hence a TypeError. Negative widths are a ValueError. A single pair is
  used for every axis; otherwise there must be one pair per axis, else the broadcast to
  \<open>(ndim, 2)\<close> fails with a ValueError.
\<close>

definition np_pad :: "'a::zero tensor \<Rightarrow> int list \<Rightarrow> py_error + 'a tensor" where
  "np_pad x after =
     (if after = [] then Inl TypeError
      else if \<exists>a \<in> set after. a < 0 then Inl ValueError
      else if length after = 1 then Inr (pad_tensor x (replicate (ndim x) (nat (hd after))))
      else if length after = ndim x then Inr (pad_tensor x (map nat after))
      else Inl ValueError)"

text \<open>\<open>np.zeros(shape)\<close>.\<close>

definition np_zeros :: "nat list \<Rightarrow> 'a::zero tensor" where
  "np_zeros shp = Tensor shp (replicate (prod_list shp) 0)"

lemma length_pad_axes:
  "length xs = prod_list ns \<Longrightarrow> length (pad_axes ns ps xs) = prod_list (padded_shape ns ps)"
proof (induction ns ps xs rule: pad_axes.induct)
  case (1 n ns p ps xs)
  have "length (pad_axes ns ps (block (prod_list ns) j xs)) = prod_list (padded_shape ns ps)"
    if "j < n" for j
  proof (rule "1.IH")
    show "j \<in> set [0..<n]" using that by simp
    show "length (block (prod_list ns) j xs) = prod_list ns"
      using block_in_range [of xs n "prod_list ns" j] that "1.prems" by simp
  qed
  then have "length (concat (map (\<lambda>j. pad_axes ns ps (block (prod_list ns) j xs)) [0..<n]))
               = n * prod_list (padded_shape ns ps)"
    by (rule length_concat_upt)
  then show ?case by (simp add: add_mult_distrib)
qed simp_all

lemma nth_pad_axes:
  "length xs = prod_list ns \<Longrightarrow> in_bounds (padded_shape ns ps) idx \<Longrightarrow>
   pad_axes ns ps xs ! offset (padded_shape ns ps) idx
     = (if in_bounds ns idx then xs ! offset ns idx else 0)"
proof (induction ns ps xs arbitrary: idx rule: pad_axes.induct)
  case (1 n ns p ps xs)
  from "1.prems"(2) obtain i rest where idx: "idx = i # rest" and i: "i < n + p"
    and rest: "in_bounds (padded_shape ns ps) rest"
    by (cases idx) (auto simp: in_bounds_def)
  let ?m = "prod_list ns"
  let ?L = "prod_list (padded_shape ns ps)"
  let ?F = "\<lambda>j. pad_axes ns ps (block ?m j xs)"
  have blk: "length (block ?m j xs) = ?m" if "j < n" for j
    using block_in_range [of xs n ?m j] that "1.prems"(1) by simp
  have lenF: "length (?F j) = ?L" if "j < n" for j
    using blk [OF that] by (rule length_pad_axes)
  have lenC: "length (concat (map ?F [0..<n])) = n * ?L"
    using lenF by (rule length_concat_upt)
  have r: "offset (padded_shape ns ps) rest < ?L"
    using rest by (rule offset_less)
  show ?case
  proof (cases "i < n")
    case True
    then have "Suc i \<le> n" by simp
    then have "Suc i * ?L \<le> n * ?L" by (rule mult_le_mono1)
    then have lt: "i * ?L + offset (padded_shape ns ps) rest < n * ?L" using r by simp
    have "pad_axes (n # ns) (p # ps) xs ! offset (padded_shape (n # ns) (p # ps)) idx
            = concat (map ?F [0..<n]) ! (i * ?L + offset (padded_shape ns ps) rest)"
      using lt lenC by (simp add: idx nth_append)
    also have "\<dots> = ?F i ! offset (padded_shape ns ps) rest"
      using lenF True r by (rule nth_concat_upt)
    also have "\<dots> = (if in_bounds ns rest then block ?m i xs ! offset ns rest else 0)"
      using True blk [OF True] rest by (intro "1.IH") simp_all
    also have "\<dots> = (if in_bounds ns rest then xs ! (i * ?m + offset ns rest) else 0)"
      using nth_block [OF offset_less blk [OF True], of rest] by simp
    finally show ?thesis using True by (simp add: idx in_bounds_def)
  next
    case False
    then obtain q where q: "i = n + q" and qp: "q < p"
      using i by (metis add_diff_inverse_nat nat_add_left_cancel_less)
    have "Suc q \<le> p" using qp by simp
    then have "Suc q * ?L \<le> p * ?L" by (rule mult_le_mono1)
    then have lt: "q * ?L + offset (padded_shape ns ps) rest < p * ?L" using r by simp
    have "i * ?L + offset (padded_shape ns ps) rest
            = n * ?L + (q * ?L + offset (padded_shape ns ps) rest)"
      by (simp add: q add_mult_distrib)
    then have "pad_axes (n # ns) (p # ps) xs ! offset (padded_shape (n # ns) (p # ps)) idx
            = replicate (p * ?L) (0::'a) ! (q * ?L + offset (padded_shape ns ps) rest)"
      using lenC by (simp add: idx nth_append)
    also have "\<dots> = 0" using lt by simp
    finally show ?thesis using False by (simp add: idx in_bounds_def)
  qed
qed simp_all


section \<open>Named skeletons, partition and expand\<close>

text \<open>
  A named skeleton is a Python dict from a tensor's name to \<open>{'index': i, 'shape': s}\<close>.
  A dict iterates in insertion order, and assigning to a key that is present replaces its
  value in place: an association list with \<open>AList.update\<close>, looked up with \<open>map_of\<close>.
  \<^verbatim>\<open>
  def skeleton(model):
      return {w.name: {'index': i, 'shape': w.numpy().shape}
              for i, w in enumerate(model.weights)}
  \<close>
  The model is given by its weights: their names and arrays, in order.
\<close>

record entry =
  index :: nat
  eshape :: "nat list"

type_synonym named_skeleton = "(string \<times> entry) list"

definition skeleton :: "(string \<times> 'a tensor) list \<Rightarrow> named_skeleton" where
  "skeleton model_weights =
     fold (\<lambda>(i, (name, w)) d. AList.update name \<lparr>index = i, eshape = shape w\<rparr> d)
       (enumerate 0 model_weights) []"

text \<open>\<open>xs[i]\<close> on a Python list, for \<open>0 \<le> i\<close>: an IndexError out of range.\<close>

definition getitem :: "'a list \<Rightarrow> nat \<Rightarrow> py_error + 'a" where
  "getitem xs i = (if i < length xs then Inr (xs ! i) else Inl IndexError)"

text \<open>
  \<open>x[tuple(slice(i) for i in req)]\<close>: numpy raises an IndexError (too many indices) when
  there are more slices than axes.
\<close>

definition sub_block :: "'a tensor \<Rightarrow> nat list \<Rightarrow> 'a tensor" where
  "sub_block x req = Tensor (sliced_shape (shape x) req) (slice_axes (shape x) req (elems x))"

definition leading_block :: "'a tensor \<Rightarrow> nat list \<Rightarrow> py_error + 'a tensor" where
  "leading_block x req =
     (if ndim x < length req then Inl IndexError else Inr (sub_block x req))"

text \<open>
  \<^verbatim>\<open>
  def partition(weights, skel_from, skel_to):
      return [weights[skel_from[k]['index']][tuple(slice(i) for i in v['shape'])]
              for k, v in skel_to.items() if k in skel_from]
  \<close>
  The comprehension walks \<open>skel_to\<close> in order and stops at the first exception.
\<close>

fun partition_loop ::
  "'a tensor list \<Rightarrow> named_skeleton \<Rightarrow> named_skeleton \<Rightarrow> py_error + 'a tensor list"
where
  "partition_loop weights skel_from [] = Inr []"
| "partition_loop weights skel_from ((k, v) # skel_to) =
     (case map_of skel_from k of
        None \<Rightarrow> partition_loop weights skel_from skel_to
      | Some e \<Rightarrow>
          (case getitem weights (index e) of
             Inl err \<Rightarrow> Inl err
           | Inr x \<Rightarrow>
               (case leading_block x (eshape v) of
                  Inl err \<Rightarrow> Inl err
                | Inr t \<Rightarrow>
                    (case partition_loop weights skel_from skel_to of
                       Inl err \<Rightarrow> Inl err
                     | Inr ts \<Rightarrow> Inr (t # ts)))))"

definition partition_w ::
  "'a tensor list \<Rightarrow> named_skeleton \<Rightarrow> named_skeleton \<Rightarrow> py_error + 'a tensor list"
where
  "partition_w weights skel_from skel_to = partition_loop weights skel_from skel_to"

text \<open>\<open>xs.insert(i, x)\<close> for \<open>0 \<le> i\<close>: an index beyond the end appends.\<close>

definition list_insert :: "'a list \<Rightarrow> nat \<Rightarrow> 'a \<Rightarrow> 'a list" where
  "list_insert xs i x = take i xs @ x # drop i xs"

text \<open>
  \<^verbatim>\<open>
  def expand(weights, skel_from, skel_to):
      for k, v in skel_to.items():
          if k in skel_from:
              weights[v['index']] = np.pad(weights[v['index']],
                  tuple((0, b - ws) for b, ws in zip(v['shape'], weights[v['index']].shape)))
          else:
              weights.insert(v['index'], np.zeros(v['shape']))
      return weights
  \<close>
  The list is threaded through the loop; the value returned is its final content.
\<close>

fun expand_loop ::
  "'a::zero tensor list \<Rightarrow> named_skeleton \<Rightarrow> named_skeleton \<Rightarrow> py_error + 'a tensor list"
where
  "expand_loop weights skel_from [] = Inr weights"
| "expand_loop weights skel_from ((k, v) # skel_to) =
     (case map_of skel_from k of
        Some _ \<Rightarrow>
          (case getitem weights (index v) of
             Inl err \<Rightarrow> Inl err
           | Inr w \<Rightarrow>
               (case np_pad w (map2 (\<lambda>b ws. int b - int ws) (eshape v) (shape w)) of
                  Inl err \<Rightarrow> Inl err
                | Inr t \<Rightarrow> expand_loop (weights[index v := t]) skel_from skel_to))
      | None \<Rightarrow>
          expand_loop (list_insert weights (index v) (np_zeros (eshape v))) skel_from skel_to)"

definition expand ::
  "'a::zero tensor list \<Rightarrow> named_skeleton \<Rightarrow> named_skeleton \<Rightarrow> py_error + 'a tensor list"
where
  "expand weights skel_from skel_to = expand_loop weights skel_from skel_to"

text \<open>
  What it means for \<open>t\<close> to be \<open>g[0:d0, 0:d1, ...]\<close>: the shape is clamped on the sliced
  axes and whole on the others, and every element of \<open>t\<close> is the element of \<open>g\<close> at the
  same multi-index. \<open>shared_entries\<close> are the entries of \<open>skel_to\<close> whose name is also in
  \<open>skel_from\<close>, in the order of \<open>skel_to\<close>.
\<close>

definition is_leading_block :: "'a tensor \<Rightarrow> nat list \<Rightarrow> 'a tensor \<Rightarrow> bool" where
  "is_leading_block g d t \<longleftrightarrow>
     shape t = map2 min d (shape g) @ drop (length d) (shape g) \<and> wf_tensor t \<and>
     (\<forall>idx. in_bounds (shape t) idx \<longrightarrow> nd_at t idx = nd_at g idx)"

definition shared_entries :: "named_skeleton \<Rightarrow> named_skeleton \<Rightarrow> named_skeleton" where
  "shared_entries skel_from skel_to = filter (\<lambda>(k, v). map_of skel_from k \<noteq> None) skel_to"

subsection \<open>partition\<close>

lemma sliced_shape_eq:
  "length ds \<le> length ns \<Longrightarrow> sliced_shape ns ds = map2 min ds ns @ drop (length ds) ns"
  by (induction ns ds rule: sliced_shape.induct) simp_all

lemma leading_block_ok:
  assumes "wf_tensor g" "length d \<le> ndim g"
  shows "\<exists>t. leading_block g d = Inr t \<and> is_leading_block g d t"
proof -
  let ?t = "Tensor (sliced_shape (shape g) d) (slice_axes (shape g) d (elems g))"
  have len: "length (elems g) = prod_list (shape g)" using assms(1) by (simp add: wf_tensor_def)
  have "leading_block g d = Inr ?t" using assms(2) by (simp add: leading_block_def sub_block_def)
  moreover have "shape ?t = map2 min d (shape g) @ drop (length d) (shape g)"
    using assms(2) by (simp add: sliced_shape_eq ndim_def)
  moreover have "wf_tensor ?t" using len by (simp add: wf_tensor_def length_slice_axes)
  moreover have "nd_at ?t idx = nd_at g idx" if "in_bounds (shape ?t) idx" for idx
    using that len by (simp add: nd_at_def nth_slice_axes)
  ultimately show ?thesis unfolding is_leading_block_def by blast
qed

lemma partition_loop_blocks:
  assumes "wf_tree G"
  shows "(\<forall>(k, v) \<in> set Sl. \<forall>e. map_of Sg k = Some e \<longrightarrow>
            index e < length G \<and> length (eshape v) \<le> ndim (G ! index e)) \<Longrightarrow>
     \<exists>ts. partition_loop G Sg Sl = Inr ts \<and>
        list_all2 (\<lambda>(k, v) t. \<exists>e. map_of Sg k = Some e \<and>
                     is_leading_block (G ! index e) (eshape v) t)
           (shared_entries Sg Sl) ts"
proof (induction Sl)
  case Nil
  then show ?case by (simp add: shared_entries_def)
next
  case (Cons p Sl)
  obtain k v where p: "p = (k, v)" by (cases p)
  from Cons.prems have rest: "\<forall>(k, v) \<in> set Sl. \<forall>e. map_of Sg k = Some e \<longrightarrow>
            index e < length G \<and> length (eshape v) \<le> ndim (G ! index e)" by simp
  from Cons.IH [OF rest] obtain ts where ts: "partition_loop G Sg Sl = Inr ts"
    "list_all2 (\<lambda>(k, v) t. \<exists>e. map_of Sg k = Some e \<and>
                     is_leading_block (G ! index e) (eshape v) t) (shared_entries Sg Sl) ts"
    by blast
  show ?case
  proof (cases "map_of Sg k")
    case None
    then show ?thesis using ts by (simp add: p shared_entries_def)
  next
    case (Some e)
    with Cons.prems p have ix: "index e < length G"
      and rk: "length (eshape v) \<le> ndim (G ! index e)" by auto
    have "wf_tensor (G ! index e)" using assms ix by (simp add: wf_tree_def list_all_length)
    from leading_block_ok [OF this rk] obtain t where
      t: "leading_block (G ! index e) (eshape v) = Inr t"
         "is_leading_block (G ! index e) (eshape v) t" by blast
    have "partition_loop G Sg (p # Sl) = Inr (t # ts)"
      using Some ix t(1) ts(1) by (simp add: p getitem_def)
    moreover have "list_all2 (\<lambda>(k, v) t. \<exists>e. map_of Sg k = Some e \<and>
                     is_leading_block (G ! index e) (eshape v) t)
                     (shared_entries Sg (p # Sl)) (t # ts)"
      using Some t(2) ts(2) by (simp add: p shared_entries_def)
    ultimately show ?thesis by blast
  qed
qed

subsection \<open>The loop of expand\<close>

lemma subseq_set: "subseq xs ys \<Longrightarrow> set xs \<subseteq> set ys"
  by (auto dest: list_emb_set)

lemma upt_shift: "[n ..< n + Suc m] = n # [Suc n ..< Suc n + m]"
  by (subst upt_rec) simp

lemma list_insert_at_end: "list_insert (done @ rest) (length done) z = (done @ [z]) @ rest"
  by (simp add: list_insert_def)

lemma expand_loop_general:
  fixes E :: "string \<Rightarrow> 'a::zero tensor"
  shows "distinct (map fst Sg2) \<Longrightarrow>
    map (index \<circ> snd) Sg2 = [length done ..< length done + length Sg2] \<Longrightarrow>
    subseq (map fst Sl2) (map fst Sg2) \<Longrightarrow>
    (\<forall>k \<in> set (map fst Sg2). (map_of Sl k \<noteq> None) = (k \<in> set (map fst Sl2))) \<Longrightarrow>
    (\<forall>(k, e) \<in> set Sg2. eshape e = gsh k) \<Longrightarrow>
    list_all2 (\<lambda>(k, v) t. np_pad t (map2 (\<lambda>b ws. int b - int ws) (gsh k) (shape t)) = Inr (E k))
       Sl2 rest \<Longrightarrow>
    expand_loop (done @ rest) Sl Sg2
      = Inr (done @ map (\<lambda>(k, e). if map_of Sl k \<noteq> None then E k else np_zeros (eshape e)) Sg2)"
proof (induction Sg2 arbitrary: "done" Sl2 rest)
  case Nil
  from Nil.prems(3) have "map fst Sl2 = []" by (auto dest: list_emb_Nil2)
  then have "Sl2 = []" by simp
  then have "rest = []" using Nil.prems(6) by simp
  then show ?case by simp
next
  case (Cons p Sg2)
  obtain k e where p: "p = (k, e)" by (cases p)
  from Cons.prems(1) p have dist: "distinct (map fst Sg2)" and knot: "k \<notin> set (map fst Sg2)"
    by simp_all
  have "map (index \<circ> snd) (p # Sg2)
          = length done # [Suc (length done) ..< Suc (length done) + length Sg2]"
    using Cons.prems(2) by (simp only: length_Cons upt_shift)
  then have ix0: "index (snd p) = length done
      \<and> map (index \<circ> snd) Sg2 = [Suc (length done) ..< Suc (length done) + length Sg2]"
    by (simp only: list.map list.inject comp_apply)
  then have ix: "index e = length done" by (simp add: p)
  have ixs: "map (index \<circ> snd) Sg2 = [length (done @ [z]) ..< length (done @ [z]) + length Sg2]"
    for z :: "'a tensor"
    using ix0 by (simp only: length_append_singleton)
  from Cons.prems(5) p have esh: "eshape e = gsh k" and eshs: "\<forall>(k, e) \<in> set Sg2. eshape e = gsh k"
    by simp_all
  show ?case
  proof (cases "map_of Sl k")
    case None
    then have kn: "k \<notin> set (map fst Sl2)" using Cons.prems(4) p by simp
    have sub: "subseq (map fst Sl2) (map fst Sg2)"
    proof (cases Sl2)
      case Nil
      then show ?thesis by simp
    next
      case (Cons q Sl2')
      then have "fst q \<noteq> k" using kn by auto
      then show ?thesis using Cons.prems(3) Cons p by (simp add: subseq_Cons2_iff)
    qed
    have mem: "\<forall>k \<in> set (map fst Sg2). (map_of Sl k \<noteq> None) = (k \<in> set (map fst Sl2))"
      using Cons.prems(4) by simp
    have "expand_loop (done @ rest) Sl (p # Sg2)
            = expand_loop ((done @ [np_zeros (eshape e)]) @ rest) Sl Sg2"
      using None ix by (simp add: p list_insert_at_end)
    also have "\<dots> = Inr ((done @ [np_zeros (eshape e)]) @
        map (\<lambda>(k, e). if map_of Sl k \<noteq> None then E k else np_zeros (eshape e)) Sg2)"
      using dist ixs sub mem eshs Cons.prems(6) by (rule Cons.IH)
    finally show ?thesis using None by (simp add: p)
  next
    case (Some v0)
    then have kin: "k \<in> set (map fst Sl2)" using Cons.prems(4) p by simp
    then obtain q Sl2' where Sl2: "Sl2 = q # Sl2'" by (cases Sl2) auto
    have qk: "fst q = k"
    proof (rule ccontr)
      assume "fst q \<noteq> k"
      then have "subseq (map fst Sl2) (map fst Sg2)"
        using Cons.prems(3) Sl2 p by (simp add: subseq_Cons2_iff)
      then have "set (map fst Sl2) \<subseteq> set (map fst Sg2)" by (rule subseq_set)
      then show False using kin knot by blast
    qed
    obtain v where q: "q = (k, v)" using qk by (cases q) auto
    from Cons.prems(6) Sl2 obtain t rest' where rest: "rest = t # rest'"
      and padt: "np_pad t (map2 (\<lambda>b ws. int b - int ws) (gsh k) (shape t)) = Inr (E k)"
      and rest': "list_all2 (\<lambda>(k, v) t. np_pad t (map2 (\<lambda>b ws. int b - int ws) (gsh k) (shape t))
                     = Inr (E k)) Sl2' rest'"
      by (auto simp: q list_all2_Cons1)
    have sub: "subseq (map fst Sl2') (map fst Sg2)"
      using Cons.prems(3) by (simp add: Sl2 q p)
    have knot': "k \<notin> set (map fst Sl2')"
      using subseq_set [OF sub] knot by blast
    have mem: "\<forall>k \<in> set (map fst Sg2). (map_of Sl k \<noteq> None) = (k \<in> set (map fst Sl2'))"
      using Cons.prems(4) knot by (auto simp: Sl2 q p)
    have "expand_loop (done @ rest) Sl (p # Sg2)
            = expand_loop ((done @ [E k]) @ rest') Sl Sg2"
      using Some ix padt esh by (simp add: p rest getitem_def)
    also have "\<dots> = Inr ((done @ [E k]) @
        map (\<lambda>(k, e). if map_of Sl k \<noteq> None then E k else np_zeros (eshape e)) Sg2)"
      using dist ixs sub mem eshs rest' by (rule Cons.IH)
    finally show ?thesis using Some by (simp add: p)
  qed
qed


lemma leading_block_sub_block:
  "length req \<le> ndim x \<Longrightarrow> leading_block x req = Inr (sub_block x req)"
  by (simp add: leading_block_def sub_block_def)

text \<open>
  \<open>Sg\<close> is the named skeleton of the tree \<open>G\<close>: distinct names, listed in tree order, each
  with its position and the shape of the tensor there.
\<close>

definition global_skeleton :: "named_skeleton \<Rightarrow> 'a tensor list \<Rightarrow> bool" where
  "global_skeleton Sg G \<longleftrightarrow>
     distinct (map fst Sg) \<and> map (index \<circ> snd) Sg = [0..<length G] \<and>
     map (eshape \<circ> snd) Sg = map shape G"

lemma partition_loop_explicit:
  "(\<forall>(k, v) \<in> set Sl. \<forall>e. map_of Sg k = Some e \<longrightarrow>
       index e < length G \<and> length (eshape v) \<le> ndim (G ! index e)) \<Longrightarrow>
   partition_loop G Sg Sl
     = Inr (map (\<lambda>(k, v). sub_block (G ! index (the (map_of Sg k))) (eshape v))
              (shared_entries Sg Sl))"
proof (induction Sl)
  case Nil
  then show ?case by (simp add: shared_entries_def)
next
  case (Cons p Sl)
  obtain k v where p: "p = (k, v)" by (cases p)
  from Cons.prems have rest: "\<forall>(k, v) \<in> set Sl. \<forall>e. map_of Sg k = Some e \<longrightarrow>
            index e < length G \<and> length (eshape v) \<le> ndim (G ! index e)" by simp
  note IH = Cons.IH [OF rest]
  show ?case
  proof (cases "map_of Sg k")
    case None
    then show ?thesis using IH by (simp add: p shared_entries_def)
  next
    case (Some e)
    with Cons.prems p have ix: "index e < length G"
      and rk: "length (eshape v) \<le> ndim (G ! index e)" by auto
    show ?thesis
      using Some ix leading_block_sub_block [OF rk] IH
      by (simp add: p getitem_def shared_entries_def)
  qed
qed

lemma sliced_shape_le: "list_all2 (\<le>) d g \<Longrightarrow> sliced_shape g d = d"
  by (induction d g rule: list_all2_induct) simp_all

lemma padded_shape_diff: "list_all2 (\<le>) d g \<Longrightarrow> padded_shape d (map2 (-) g d) = g"
  by (induction d g rule: list_all2_induct) simp_all

lemma map_nat_diff:
  "list_all2 (\<le>) d g \<Longrightarrow> map nat (map2 (\<lambda>b ws. int b - int ws) g d) = map2 (-) g d"
  by (induction d g rule: list_all2_induct) simp_all

lemma diff_nonneg:
  "list_all2 (\<le>) d g \<Longrightarrow> \<forall>a \<in> set (map2 (\<lambda>b ws. int b - int ws) g d). 0 \<le> a"
  by (induction d g rule: list_all2_induct) simp_all

lemma np_pad_up:
  assumes "shape t = d" "list_all2 (\<le>) d g" "d \<noteq> []"
  shows "np_pad t (map2 (\<lambda>b ws. int b - int ws) g (shape t)) = Inr (pad_tensor t (map2 (-) g d))"
proof -
  let ?after = "map2 (\<lambda>b ws. int b - int ws) g d"
  have len: "length ?after = ndim t"
    using assms(1,2) by (simp add: ndim_def list_all2_lengthD)
  have ne: "?after \<noteq> []" using len assms(1,3) by (auto simp: ndim_def)
  have nn: "\<not> (\<exists>a \<in> set ?after. a < 0)" using diff_nonneg [OF assms(2)] by auto
  have one: "replicate (ndim t) (nat (hd ?after)) = map nat ?after" if "length ?after = 1"
  proof -
    from that obtain a where a: "?after = [a]" by (cases ?after) auto
    moreover from a len have "ndim t = Suc 0" by simp
    ultimately show ?thesis by simp
  qed
  show ?thesis
    using ne nn len one map_nat_diff [OF assms(2)] unfolding np_pad_def assms(1)
    by (simp del: map_map)
qed

lemma expanded_entry:
  assumes "wf_tensor g" "list_all2 (\<le>) d (shape g)"
  shows "shape (pad_tensor (sub_block g d) (map2 (-) (shape g) d)) = shape g"
    and "wf_tensor (pad_tensor (sub_block g d) (map2 (-) (shape g) d))"
    and "in_bounds (shape g) idx \<Longrightarrow>
         nd_at (pad_tensor (sub_block g d) (map2 (-) (shape g) d)) idx
           = (if in_bounds d idx then nd_at g idx else 0)"
proof -
  let ?ps = "map2 (-) (shape g) d"
  let ?xs = "slice_axes (shape g) d (elems g)"
  have len: "length (elems g) = prod_list (shape g)" using assms(1) by (simp add: wf_tensor_def)
  have sl: "sliced_shape (shape g) d = d" using assms(2) by (rule sliced_shape_le)
  have pd: "padded_shape d ?ps = shape g" using assms(2) by (rule padded_shape_diff)
  have lxs: "length ?xs = prod_list d" using length_slice_axes [OF len, of d] sl by simp
  show "shape (pad_tensor (sub_block g d) ?ps) = shape g"
    by (simp add: pad_tensor_def sub_block_def sl pd)
  show "wf_tensor (pad_tensor (sub_block g d) ?ps)"
    using length_pad_axes [OF lxs, of ?ps] by (simp add: wf_tensor_def pad_tensor_def sub_block_def sl pd)
  show "nd_at (pad_tensor (sub_block g d) ?ps) idx = (if in_bounds d idx then nd_at g idx else 0)"
    if ib: "in_bounds (shape g) idx"
  proof -
    have "pad_axes d ?ps ?xs ! offset (padded_shape d ?ps) idx
            = (if in_bounds d idx then ?xs ! offset d idx else 0)"
      using lxs ib by (intro nth_pad_axes) (simp_all add: pd)
    moreover have "?xs ! offset d idx = elems g ! offset (shape g) idx" if "in_bounds d idx"
      using nth_slice_axes [OF len, of d idx] that sl by simp
    ultimately show ?thesis
      by (simp add: nd_at_def pad_tensor_def sub_block_def sl pd)
  qed
qed

lemma np_zeros_props:
  "shape (np_zeros s) = s" "wf_tensor (np_zeros s)"
  "in_bounds s idx \<Longrightarrow> nd_at (np_zeros s :: 'a::zero tensor) idx = 0"
  using offset_less [of s idx] by (simp_all add: np_zeros_def wf_tensor_def nd_at_def)

lemma global_skeleton_nth:
  assumes "global_skeleton Sg G" "i < length G"
  shows "index (snd (Sg ! i)) = i" "eshape (snd (Sg ! i)) = shape (G ! i)"
    "map_of Sg (fst (Sg ! i)) = Some (snd (Sg ! i))" "i < length Sg"
proof -
  from assms(1) have d: "distinct (map fst Sg)" and ix: "map (index \<circ> snd) Sg = [0..<length G]"
    and sh: "map (eshape \<circ> snd) Sg = map shape G" by (simp_all add: global_skeleton_def)
  from ix have len: "length Sg = length G" by (metis length_map length_upt minus_nat.diff_0)
  show "i < length Sg" using len assms(2) by simp
  then have "map (index \<circ> snd) Sg ! i = index (snd (Sg ! i))"
    and "map (eshape \<circ> snd) Sg ! i = eshape (snd (Sg ! i))" by simp_all
  then show "index (snd (Sg ! i)) = i" "eshape (snd (Sg ! i)) = shape (G ! i)"
    using ix sh assms(2) by simp_all
  have "Sg ! i \<in> set Sg" using \<open>i < length Sg\<close> by simp
  then have "(fst (Sg ! i), snd (Sg ! i)) \<in> set Sg" by simp
  then show "map_of Sg (fst (Sg ! i)) = Some (snd (Sg ! i))"
    using d by (simp only: map_of_eq_Some_iff)
qed

lemma global_skeleton_lookup:
  assumes "global_skeleton Sg G" "map_of Sg k = Some e"
  shows "index e < length G" "eshape e = shape (G ! index e)"
proof -
  from assms(2) have "(k, e) \<in> set Sg" by (rule map_of_SomeD)
  then obtain i where i: "i < length Sg" "Sg ! i = (k, e)" by (auto simp: in_set_conv_nth)
  from assms(1) have "length (map (index \<circ> snd) Sg) = length G"
    by (simp add: global_skeleton_def)
  then have iG: "i < length G" using i(1) by simp
  from global_skeleton_nth(1,2) [OF assms(1) iG] i(2)
  show "index e < length G" "eshape e = shape (G ! index e)" using iG by simp_all
qed


lemma update_fresh: "k \<notin> fst ` set d \<Longrightarrow> AList.update k v d = d @ [(k, v)]"
  by (induction d) auto

lemma skeleton_fold:
  "distinct (map fst d @ map fst m) \<Longrightarrow>
   fold (\<lambda>(i, (name, w)) d. AList.update name \<lparr>index = i, eshape = shape w\<rparr> d) (enumerate n m) d
     = d @ map (\<lambda>(i, (name, w)). (name, \<lparr>index = i, eshape = shape w\<rparr>)) (enumerate n m)"
proof (induction m arbitrary: n d)
  case Nil
  then show ?case by simp
next
  case (Cons p m)
  obtain name w where p: "p = (name, w)" by (cases p)
  from Cons.prems p have fresh: "name \<notin> fst ` set d"
    and dist: "distinct (map fst (d @ [(name, \<lparr>index = n, eshape = shape w\<rparr>)]) @ map fst m)"
    by auto
  show ?case
    using Cons.IH [OF dist, of "Suc n"] by (simp add: p update_fresh [OF fresh])
qed

lemma skeleton_distinct:
  "distinct (map fst m) \<Longrightarrow>
   skeleton m = map (\<lambda>(i, (name, w)). (name, \<lparr>index = i, eshape = shape w\<rparr>)) (enumerate 0 m)"
  using skeleton_fold [of "[]" m 0] by (simp add: skeleton_def)

lemma skeleton_is_global_skeleton:
  assumes "distinct (map fst m)"
  shows "global_skeleton (skeleton m) (map snd m)"
proof -
  have k: "map fst (map (\<lambda>(i, (name, w)). (name, \<lparr>index = i, eshape = shape w\<rparr>)) (enumerate n m))
             = map fst m" for n
    by (induction m arbitrary: n) auto
  have i: "map (index \<circ> snd) (map (\<lambda>(i, (name, w)). (name, \<lparr>index = i, eshape = shape w\<rparr>))
             (enumerate n m)) = [n..<n + length m]" for n
  proof (induction m arbitrary: n)
    case Nil
    then show ?case by simp
  next
    case (Cons p m)
    have "[n..<n + length (p # m)] = n # [Suc n..<Suc n + length m]"
      by (simp only: length_Cons upt_shift)
    then show ?case using Cons.IH [of "Suc n"] by (simp add: split_beta del: upt_Suc)
  qed
  have s: "map (eshape \<circ> snd) (map (\<lambda>(i, (name, w)). (name, \<lparr>index = i, eshape = shape w\<rparr>))
             (enumerate n m)) = map shape (map snd m)" for n
    by (induction m arbitrary: n) auto
  show ?thesis
    unfolding global_skeleton_def skeleton_distinct [OF assms]
    using assms k [of 0] i [of 0] s [of 0] by simp
qed


section \<open>An example model\<close>

definition ex_G :: "int tensor list" where
  "ex_G = [Tensor [3, 3] [1, 2, 3, 4, 5, 6, 7, 8, 9], Tensor [2] [10, 11],
           Tensor [2, 2] [12, 13, 14, 15]]"

definition ex_Sg :: named_skeleton where
  "ex_Sg = skeleton [(''a'', ex_G ! 0), (''b'', ex_G ! 1), (''c'', ex_G ! 2)]"

definition ex_Sl :: named_skeleton where
  "ex_Sl = [(''a'', \<lparr>index = 0, eshape = [2, 2]\<rparr>), (''c'', \<lparr>index = 1, eshape = [1, 2]\<rparr>)]"

definition ex_Sl_extra :: named_skeleton where
  "ex_Sl_extra = [(''a'', \<lparr>index = 0, eshape = [2, 2]\<rparr>), (''z'', \<lparr>index = 1, eshape = [7]\<rparr>),
                  (''c'', \<lparr>index = 2, eshape = [1, 2]\<rparr>)]"

lemma ex_Sg_eq:
  "ex_Sg = [(''a'', \<lparr>index = 0, eshape = [3, 3]\<rparr>), (''b'', \<lparr>index = 1, eshape = [2]\<rparr>),
            (''c'', \<lparr>index = 2, eshape = [2, 2]\<rparr>)]"
  by (simp add: ex_Sg_def skeleton_def ex_G_def)

lemma ex_G_wf: "wf_tree ex_G"
  by (simp add: wf_tree_def wf_tensor_def ex_G_def)

section \<open>Properties of partition and expand\<close>

text \<open>
  C3, as stated, fails: a local shape with more axes than the global tensor makes the
  slicing raise an IndexError, so nothing is returned for that name.
\<close>

theorem partition_rank_excess_raises:
  "partition_w [Tensor [2] [1, 2 :: int]] [(''a'', \<lparr>index = 0, eshape = [2]\<rparr>)]
     [(''a'', \<lparr>index = 0, eshape = [1, 1]\<rparr>)] = Inl IndexError"
  by (simp add: partition_w_def getitem_def leading_block_def ndim_def)

text \<open>
  C3 (amended): for every global tree of numpy arrays, global skeleton and local skeleton
  such that, for every name in both, the global index lies within the tree and the local
  shape has no more axes than the global tensor, \<open>partition\<close> returns one tensor per name
  present in both skeletons, in the local skeleton's order (names absent from the global
  skeleton are dropped), and each returned tensor is the global tensor at that name's
  global index restricted to the leading sub-block \<open>tensor[0:d0, 0:d1, ...]\<close> for the local
  shape \<open>(d0, d1, ...)\<close>.
\<close>

theorem partition_leading_blocks:
  assumes "wf_tree G"
    and "\<forall>(k, v) \<in> set Sl. \<forall>e. map_of Sg k = Some e \<longrightarrow>
            index e < length G \<and> length (eshape v) \<le> ndim (G ! index e)"
  shows "\<exists>ts. partition_w G Sg Sl = Inr ts \<and>
           list_all2 (\<lambda>(k, v) t. \<exists>e. map_of Sg k = Some e \<and>
                        is_leading_block (G ! index e) (eshape v) t)
             (shared_entries Sg Sl) ts"
proof -
  from partition_loop_blocks [OF assms] obtain ts where
    run: "partition_loop G Sg Sl = Inr ts"
    and blocks: "list_all2 (\<lambda>(k, v) t. \<exists>e. map_of Sg k = Some e \<and>
                        is_leading_block (G ! index e) (eshape v) t)
             (shared_entries Sg Sl) ts"
    by blast
  from run have "partition_w G Sg Sl = Inr ts" by (simp add: partition_w_def)
  with blocks show ?thesis by blast
qed

theorem partition_leading_blocks_witness:
  "partition_w ex_G ex_Sg ex_Sl_extra = Inr [Tensor [2, 2] [1, 2, 4, 5], Tensor [1, 2] [12, 13]]
   \<and> is_leading_block (ex_G ! 0) [2, 2] (Tensor [2, 2] [1, 2, 4, 5])
   \<and> is_leading_block (ex_G ! 2) [1, 2] (Tensor [1, 2] [12, 13])"
proof -
  have pre: "\<forall>(k, v) \<in> set ex_Sl_extra. \<forall>e. map_of ex_Sg k = Some e \<longrightarrow>
            index e < length ex_G \<and> length (eshape v) \<le> ndim (ex_G ! index e)"
    by (simp add: ex_Sl_extra_def ex_Sg_eq ex_G_def ndim_def)
  have sh: "shared_entries ex_Sg ex_Sl_extra
              = [(''a'', \<lparr>index = 0, eshape = [2, 2]\<rparr>), (''c'', \<lparr>index = 2, eshape = [1, 2]\<rparr>)]"
    by (simp add: shared_entries_def ex_Sl_extra_def ex_Sg_eq)
  have ev: "partition_w ex_G ex_Sg ex_Sl_extra
              = Inr [Tensor [2, 2] [1, 2, 4, 5], Tensor [1, 2] [12, 13]]"
    by code_simp
  from partition_leading_blocks [OF ex_G_wf pre] ev sh
  have "list_all2 (\<lambda>(k, v) t. \<exists>e. map_of ex_Sg k = Some e \<and>
                        is_leading_block (ex_G ! index e) (eshape v) t)
          [(''a'', \<lparr>index = 0, eshape = [2, 2]\<rparr>), (''c'', \<lparr>index = 2, eshape = [1, 2]\<rparr>)]
          [Tensor [2, 2] [1, 2, 4, 5], Tensor [1, 2] [12, 13]]"
    by simp
  then show ?thesis using ev by (simp add: ex_Sg_eq)
qed

text \<open>
  C2, as stated, fails on a tensor without axes (shape \<open>()\<close>): \<open>partition\<close> returns it, and
  \<open>expand\<close> then calls \<open>np.pad\<close> with an empty tuple of pad widths, which numpy rejects
  with a TypeError. The skeletons below satisfy every condition of the claim.
\<close>

theorem expand_scalar_tensor_raises:
  "wf_tree [Tensor [] [5 :: int]]
   \<and> global_skeleton [(''a'', \<lparr>index = 0, eshape = []\<rparr>)] [Tensor [] [5 :: int]]
   \<and> subseq (map fst [(''a'', \<lparr>index = 0, eshape = []\<rparr>)]) (map fst [(''a'', \<lparr>index = 0, eshape = []\<rparr>)])
   \<and> list_all2 (\<le>) (eshape \<lparr>index = 0, eshape = []\<rparr>) (eshape \<lparr>index = 0, eshape = []\<rparr>)
   \<and> partition_w [Tensor [] [5 :: int]] [(''a'', \<lparr>index = 0, eshape = []\<rparr>)]
        [(''a'', \<lparr>index = 0, eshape = []\<rparr>)] = Inr [Tensor [] [5]]
   \<and> expand [Tensor [] [5 :: int]] [(''a'', \<lparr>index = 0, eshape = []\<rparr>)]
        [(''a'', \<lparr>index = 0, eshape = []\<rparr>)] = Inl TypeError"
  by (simp add: wf_tree_def wf_tensor_def global_skeleton_def partition_w_def expand_def
      getitem_def leading_block_def sub_block_def ndim_def np_pad_def)

text \<open>
  C2 (amended): for every global tree \<open>G\<close> of numpy arrays with named skeleton \<open>Sg\<close> and
  every local skeleton \<open>Sl\<close> over a subset of \<open>Sg\<close>'s names, in the same relative order,
  whose shapes have at least one axis and are entrywise at most the corresponding shapes of
  \<open>Sg\<close>, \<open>expand (partition G Sg Sl) Sl Sg\<close> returns a tree whose shapes are those of \<open>Sg\<close>;
  for each name in \<open>Sl\<close> the tensor agrees with \<open>G\<close>'s on the leading sub-block of \<open>Sl\<close>'s
  shape and is zero outside it, and for each name absent from \<open>Sl\<close> the tensor at its
  global index is all zeros.
\<close>

theorem expand_partition_law:
  fixes G :: "'a::zero tensor list"
  assumes wf: "wf_tree G"
    and gs: "global_skeleton Sg G"
    and dl: "distinct (map fst Sl)"
    and sub: "subseq (map fst Sl) (map fst Sg)"
    and fits: "\<forall>(k, v) \<in> set Sl. \<forall>e. map_of Sg k = Some e \<longrightarrow> list_all2 (\<le>) (eshape v) (eshape e)"
    and rank: "\<forall>(k, v) \<in> set Sl. eshape v \<noteq> []"
  shows "\<exists>P R. partition_w G Sg Sl = Inr P \<and> expand P Sl Sg = Inr R \<and>
           map shape R = map shape G \<and> wf_tree R \<and>
           (\<forall>i < length G. \<forall>idx. in_bounds (shape (G ! i)) idx \<longrightarrow>
              nd_at (R ! i) idx =
                (case map_of Sl (fst (Sg ! i)) of
                   Some v \<Rightarrow> if in_bounds (eshape v) idx then nd_at (G ! i) idx else 0
                 | None \<Rightarrow> 0))"
proof -
  define gsh where "gsh k = eshape (the (map_of Sg k))" for k
  define gt where "gt k = G ! index (the (map_of Sg k))" for k
  define lsh where "lsh k = eshape (the (map_of Sl k))" for k
  define E where "E k = pad_tensor (sub_block (gt k) (lsh k)) (map2 (-) (gsh k) (lsh k))" for k
  define P where "P = map (\<lambda>(k, v). sub_block (gt k) (eshape v)) Sl"
  define R where "R = map (\<lambda>(k, e). if map_of Sl k \<noteq> None then E k else np_zeros (eshape e)) Sg"
  from gs have dg: "distinct (map fst Sg)" and ixg: "map (index \<circ> snd) Sg = [0..<length G]"
    by (simp_all add: global_skeleton_def)
  have lenSg: "length Sg = length G" using ixg by (metis length_map length_upt minus_nat.diff_0)
  have keys: "set (map fst Sl) \<subseteq> set (map fst Sg)" using sub by (rule subseq_set)
  have inSg: "\<exists>e. map_of Sg k = Some e" if "(k, v) \<in> set Sl" for k v
  proof -
    from that keys have "k \<in> fst ` set Sg" by force
    then show ?thesis by (cases "map_of Sg k") (auto simp: map_of_eq_None_iff)
  qed
  have local: "map_of Sl k = Some v" if "(k, v) \<in> set Sl" for k v
    using that dl by simp
  have entry: "list_all2 (\<le>) (eshape v) (shape (gt k)) \<and> wf_tensor (gt k) \<and> gsh k = shape (gt k)
                 \<and> lsh k = eshape v \<and> index (the (map_of Sg k)) < length G"
    if kv: "(k, v) \<in> set Sl" for k v
  proof -
    from inSg [OF kv] obtain e where e: "map_of Sg k = Some e" by blast
    from global_skeleton_lookup [OF gs e] have ix: "index e < length G"
      and sh: "eshape e = shape (G ! index e)" by simp_all
    from fits kv e have "list_all2 (\<le>) (eshape v) (eshape e)" by blast
    moreover have "wf_tensor (G ! index e)" using wf ix by (simp add: wf_tree_def list_all_length)
    ultimately show ?thesis using e ix sh local [OF kv] by (simp add: gt_def gsh_def lsh_def)
  qed
  have shared: "shared_entries Sg Sl = Sl"
    unfolding shared_entries_def using inSg by (intro filter_True) auto
  have "\<forall>(k, v) \<in> set Sl. \<forall>e. map_of Sg k = Some e \<longrightarrow>
          index e < length G \<and> length (eshape v) \<le> ndim (G ! index e)"
  proof (clarify)
    fix k v e assume kv: "(k, v) \<in> set Sl" and e: "map_of Sg k = Some e"
    from entry [OF kv] e show "index e < length G \<and> length (eshape v) \<le> ndim (G ! index e)"
      by (auto simp: gt_def ndim_def dest: list_all2_lengthD)
  qed
  then have "partition_loop G Sg Sl
      = Inr (map (\<lambda>(k, v). sub_block (G ! index (the (map_of Sg k))) (eshape v))
              (shared_entries Sg Sl))"
    by (rule partition_loop_explicit)
  then have part: "partition_w G Sg Sl = Inr P"
    by (simp add: partition_w_def P_def gt_def shared)
  have pads: "list_all2 (\<lambda>(k, v) t. np_pad t (map2 (\<lambda>b ws. int b - int ws) (gsh k) (shape t))
                  = Inr (E k)) Sl P"
    unfolding P_def list_all2_map2 list_all2_same
  proof (clarify)
    fix k v assume kv: "(k, v) \<in> set Sl"
    from entry [OF kv] have le: "list_all2 (\<le>) (eshape v) (gsh k)" and l: "lsh k = eshape v"
      and g: "gsh k = shape (gt k)" by simp_all
    have shp: "shape (sub_block (gt k) (eshape v)) = eshape v"
      using le g by (simp add: sub_block_def sliced_shape_le)
    from rank kv have ne: "eshape v \<noteq> []" by blast
    show "np_pad (sub_block (gt k) (eshape v))
            (map2 (\<lambda>b ws. int b - int ws) (gsh k) (shape (sub_block (gt k) (eshape v))))
          = Inr (E k)"
      using np_pad_up [OF shp le ne] by (simp add: E_def l)
  qed
  have mem: "\<forall>k \<in> set (map fst Sg). (map_of Sl k \<noteq> None) = (k \<in> set (map fst Sl))"
    by (simp add: map_of_eq_None_iff)
  have eshs: "\<forall>(k, e) \<in> set Sg. eshape e = gsh k"
    using dg by (auto simp: gsh_def)
  have ix0: "map (index \<circ> snd) Sg = [length ([] :: 'a tensor list) ..<
                                       length ([] :: 'a tensor list) + length Sg]"
    using ixg lenSg by simp
  have "expand_loop ([] @ P) Sl Sg = Inr ([] @ R)"
    unfolding R_def using dg ix0 sub mem eshs pads by (rule expand_loop_general)
  then have expd: "expand P Sl Sg = Inr R" by (simp add: expand_def)
  have nthR: "shape (R ! i) = shape (G ! i) \<and> wf_tensor (R ! i) \<and>
        (\<forall>idx. in_bounds (shape (G ! i)) idx \<longrightarrow>
              nd_at (R ! i) idx =
                (case map_of Sl (fst (Sg ! i)) of
                   Some v \<Rightarrow> if in_bounds (eshape v) idx then nd_at (G ! i) idx else 0
                 | None \<Rightarrow> 0))" if i: "i < length G" for i
  proof -
    obtain k e where ke: "Sg ! i = (k, e)" by (cases "Sg ! i")
    from global_skeleton_nth [OF gs i] ke have ie: "index e = i" and se: "eshape e = shape (G ! i)"
      and me: "map_of Sg k = Some e" by simp_all
    have Ri: "R ! i = (if map_of Sl k \<noteq> None then E k else np_zeros (eshape e))"
      using i lenSg ke by (simp add: R_def)
    show ?thesis
    proof (cases "map_of Sl k")
      case None
      then show ?thesis using Ri se ke by (simp add: np_zeros_props)
    next
      case (Some v)
      then have kv: "(k, v) \<in> set Sl" by (rule map_of_SomeD)
      have gk: "gt k = G ! i" using me ie by (simp add: gt_def)
      from entry [OF kv] have le: "list_all2 (\<le>) (lsh k) (shape (gt k))" and w: "wf_tensor (gt k)"
        and g: "gsh k = shape (gt k)" and l: "lsh k = eshape v" by simp_all
      have Ek: "E k = pad_tensor (sub_block (G ! i) (eshape v)) (map2 (-) (shape (G ! i)) (eshape v))"
        using g gk l by (simp add: E_def)
      show ?thesis
        using Some Ri ke expanded_entry [OF w le] unfolding gk l Ek by simp
    qed
  qed
  have lenR: "length R = length G" by (simp add: R_def lenSg)
  have shapes: "map shape R = map shape G"
    using lenR nthR by (intro nth_equalityI) simp_all
  have wfR: "wf_tree R"
    using lenR nthR by (simp add: wf_tree_def list_all_length)
  from part expd shapes wfR nthR show ?thesis by blast
qed

theorem expand_partition_law_witness:
  "partition_w ex_G ex_Sg ex_Sl = Inr [Tensor [2, 2] [1, 2, 4, 5], Tensor [1, 2] [12, 13]]
   \<and> expand [Tensor [2, 2] [1, 2, 4, 5 :: int], Tensor [1, 2] [12, 13]] ex_Sl ex_Sg
       = Inr [Tensor [3, 3] [1, 2, 0, 4, 5, 0, 0, 0, 0], Tensor [2] [0, 0],
              Tensor [2, 2] [12, 13, 0, 0]]
   \<and> (\<exists>P R. partition_w ex_G ex_Sg ex_Sl = Inr P \<and> expand P ex_Sl ex_Sg = Inr R
         \<and> map shape R = map shape ex_G \<and> wf_tree R
         \<and> nd_at (R ! 0) [1, 1] = nd_at (ex_G ! 0) [1, 1] \<and> nd_at (R ! 0) [2, 1] = 0
         \<and> nd_at (R ! 1) [1] = 0)"
proof -
  have gs: "global_skeleton ex_Sg ex_G"
    by (simp add: global_skeleton_def ex_Sg_eq ex_G_def)
  have dl: "distinct (map fst ex_Sl)" by (simp add: ex_Sl_def)
  have sub: "subseq (map fst ex_Sl) (map fst ex_Sg)" by (simp add: ex_Sl_def ex_Sg_eq)
  have fits: "\<forall>(k, v) \<in> set ex_Sl. \<forall>e. map_of ex_Sg k = Some e \<longrightarrow>
                list_all2 (\<le>) (eshape v) (eshape e)"
    by (simp add: ex_Sl_def ex_Sg_eq)
  have rank: "\<forall>(k, v) \<in> set ex_Sl. eshape v \<noteq> []" by (simp add: ex_Sl_def)
  have ev1: "partition_w ex_G ex_Sg ex_Sl
               = Inr [Tensor [2, 2] [1, 2, 4, 5], Tensor [1, 2] [12, 13]]"
    by code_simp
  have ev2: "expand [Tensor [2, 2] [1, 2, 4, 5 :: int], Tensor [1, 2] [12, 13]] ex_Sl ex_Sg
       = Inr [Tensor [3, 3] [1, 2, 0, 4, 5, 0, 0, 0, 0], Tensor [2] [0, 0],
              Tensor [2, 2] [12, 13, 0, 0]]"
    by code_simp
  from expand_partition_law [OF ex_G_wf gs dl sub fits rank]
  obtain P R where "partition_w ex_G ex_Sg ex_Sl = Inr P" "expand P ex_Sl ex_Sg = Inr R"
    "map shape R = map shape ex_G" "wf_tree R"
    and el: "\<forall>i < length ex_G. \<forall>idx. in_bounds (shape (ex_G ! i)) idx \<longrightarrow>
              nd_at (R ! i) idx =
                (case map_of ex_Sl (fst (ex_Sg ! i)) of
                   Some v \<Rightarrow> if in_bounds (eshape v) idx then nd_at (ex_G ! i) idx else 0
                 | None \<Rightarrow> 0)"
    by blast
  moreover have "nd_at (R ! 0) [1, 1] = nd_at (ex_G ! 0) [1, 1]"
    using el [rule_format, of 0 "[1, 1]"] by (simp add: ex_G_def ex_Sg_eq ex_Sl_def in_bounds_def)
  moreover have "nd_at (R ! 0) [2, 1] = 0"
    using el [rule_format, of 0 "[2, 1]"] by (simp add: ex_G_def ex_Sg_eq ex_Sl_def in_bounds_def)
  moreover have "nd_at (R ! 1) [1] = 0"
    using el [rule_format, of 1 "[1]"] by (simp add: ex_G_def ex_Sg_eq ex_Sl_def in_bounds_def)
  ultimately show ?thesis using ev1 ev2 by blast
qed

section \<open>Elementwise arithmetic on trees\<close>

text \<open>
  numpy's binary operators broadcast: the shapes are aligned at the trailing axis, two
  extents are compatible when they are equal or one of them is 1, and a missing leading
  axis counts as 1. Incompatible shapes raise
  \<open>ValueError: operands could not be broadcast together\<close>. \<open>broadcast_rev\<close> works on the
  reversed shapes.
\<close>

fun broadcast_rev :: "nat list \<Rightarrow> nat list \<Rightarrow> nat list option" where
  "broadcast_rev [] ys = Some ys"
| "broadcast_rev xs [] = Some xs"
| "broadcast_rev (x # xs) (y # ys) =
     (if x = y \<or> y = 1 then map_option ((#) x) (broadcast_rev xs ys)
      else if x = 1 then map_option ((#) y) (broadcast_rev xs ys)
      else None)"

definition broadcast_shapes :: "nat list \<Rightarrow> nat list \<Rightarrow> nat list option" where
  "broadcast_shapes s1 s2 = map_option rev (broadcast_rev (rev s1) (rev s2))"

text \<open>
  The elements of \<open>x\<close> broadcast to the shape \<open>target\<close>: an axis of extent 1 is repeated,
  an axis of the target's extent is kept block by block.
\<close>

fun expand_axes :: "nat list \<Rightarrow> nat list \<Rightarrow> 'a list \<Rightarrow> 'a list" where
  "expand_axes (n # ns) (m # ms) xs =
     (if n = m then concat (map (\<lambda>i. expand_axes ns ms (block (prod_list ns) i xs)) [0..<n])
      else concat (replicate m (expand_axes ns ms xs)))"
| "expand_axes ns ms xs = xs"

definition broadcast_to :: "'a tensor \<Rightarrow> nat list \<Rightarrow> 'a list" where
  "broadcast_to x target =
     expand_axes (replicate (length target - ndim x) 1 @ shape x) target (elems x)"

text \<open>
  \<open>a op b\<close> on two arrays. The scalar operation \<open>f\<close> is the element type's own (the type
  classes \<open>minus\<close>, \<open>times\<close> and \<open>inverse\<close> fix its name, not its laws); numpy's division
  by zero yields \<open>inf\<close> or \<open>nan\<close> with a warning and raises nothing.
\<close>

definition np_binop :: "('a \<Rightarrow> 'a \<Rightarrow> 'a) \<Rightarrow> 'a tensor \<Rightarrow> 'a tensor \<Rightarrow> py_error + 'a tensor" where
  "np_binop f a b =
     (case broadcast_shapes (shape a) (shape b) of
        None \<Rightarrow> Inl ValueError
      | Some target \<Rightarrow> Inr (Tensor target (map2 f (broadcast_to a target) (broadcast_to b target))))"

text \<open>
  \<^verbatim>\<open>
  def mul(weights_a, weights_b):
      return [a * b for a, b in zip(weights_a, weights_b)]
  def div(weights_a, weights_b):
      return [a / b for a, b in zip(weights_a, weights_b)]
  def sub(weights_a, weights_b):
      return [a - b for a, b in zip(weights_a, weights_b)]
  \<close>
  \<open>zip\<close> stops at the end of the shorter list; the comprehension stops at the first
  exception. \<open>tree_binop\<close> is that comprehension for the scalar operation \<open>f\<close>.
\<close>

fun tree_binop ::
  "('a \<Rightarrow> 'a \<Rightarrow> 'a) \<Rightarrow> 'a tensor list \<Rightarrow> 'a tensor list \<Rightarrow> py_error + 'a tensor list"
where
  "tree_binop f (a # weights_a) (b # weights_b) =
     (case np_binop f a b of
        Inl err \<Rightarrow> Inl err
      | Inr t \<Rightarrow>
          (case tree_binop f weights_a weights_b of
             Inl err \<Rightarrow> Inl err
           | Inr ts \<Rightarrow> Inr (t # ts)))"
| "tree_binop f weights_a weights_b = Inr []"

definition mul :: "'a::times tensor list \<Rightarrow> 'a tensor list \<Rightarrow> py_error + 'a tensor list" where
  "mul weights_a weights_b = tree_binop (*) weights_a weights_b"

definition div_w :: "'a::inverse tensor list \<Rightarrow> 'a tensor list \<Rightarrow> py_error + 'a tensor list" where
  "div_w weights_a weights_b = tree_binop (/) weights_a weights_b"

definition sub :: "'a::minus tensor list \<Rightarrow> 'a tensor list \<Rightarrow> py_error + 'a tensor list" where
  "sub weights_a weights_b = tree_binop (-) weights_a weights_b"

text \<open>
  Broadcast compatibility, stated on the shapes: every pair of extents aligned at the
  trailing axis is equal or contains a 1. Two trees mismatch when some position below both
  lengths holds tensors of incompatible shapes.
\<close>

definition broadcastable :: "nat list \<Rightarrow> nat list \<Rightarrow> bool" where
  "broadcastable s1 s2 \<longleftrightarrow> list_all (\<lambda>(x, y). x = y \<or> x = 1 \<or> y = 1) (zip (rev s1) (rev s2))"


definition shape_mismatch :: "'a tensor list \<Rightarrow> 'a tensor list \<Rightarrow> bool" where
  "shape_mismatch a b \<longleftrightarrow>
     (\<exists>i < min (length a) (length b). \<not> broadcastable (shape (a ! i)) (shape (b ! i)))"

subsection \<open>Facts about broadcasting\<close>

lemma broadcast_rev_Some_iff:
  "broadcast_rev xs ys \<noteq> None \<longleftrightarrow> list_all (\<lambda>(x, y). x = y \<or> x = 1 \<or> y = 1) (zip xs ys)"
  by (induction xs ys rule: broadcast_rev.induct) auto

lemma broadcast_shapes_iff: "broadcast_shapes s1 s2 \<noteq> None \<longleftrightarrow> broadcastable s1 s2"
  using broadcast_rev_Some_iff [of "rev s1" "rev s2"]
  by (simp add: broadcast_shapes_def broadcastable_def)

lemma np_binop_raises_iff:
  "np_binop f a b = Inl ValueError \<longleftrightarrow> \<not> broadcastable (shape a) (shape b)"
  "isl (np_binop f a b) \<longleftrightarrow> \<not> broadcastable (shape a) (shape b)"
  using broadcast_shapes_iff [of "shape a" "shape b"]
  by (auto simp: np_binop_def split: option.splits)

lemma tree_binop_cases:
  "(if \<exists>i < min (length a) (length b). \<not> broadcastable (shape (a ! i)) (shape (b ! i))
    then tree_binop f a b = Inl ValueError
    else \<exists>ts. tree_binop f a b = Inr ts \<and> length ts = min (length a) (length b) \<and>
           (\<forall>i < min (length a) (length b). np_binop f (a ! i) (b ! i) = Inr (ts ! i)))"
proof (induction f a b rule: tree_binop.induct)
  case (1 f a weights_a b weights_b)
  show ?case
  proof (cases "broadcastable (shape a) (shape b)")
    case False
    then have "np_binop f a b = Inl ValueError" by (simp add: np_binop_raises_iff)
    moreover have "\<exists>i < min (length (a # weights_a)) (length (b # weights_b)).
                     \<not> broadcastable (shape ((a # weights_a) ! i)) (shape ((b # weights_b) ! i))"
      using False by (intro exI [of _ 0]) simp
    ultimately show ?thesis by simp
  next
    case True
    then obtain t where t: "np_binop f a b = Inr t"
      using np_binop_raises_iff(2) [of f a b] by (cases "np_binop f a b") auto
    have ex: "(\<exists>i < min (length (a # weights_a)) (length (b # weights_b)).
                 \<not> broadcastable (shape ((a # weights_a) ! i)) (shape ((b # weights_b) ! i)))
              \<longleftrightarrow> (\<exists>i < min (length weights_a) (length weights_b).
                 \<not> broadcastable (shape (weights_a ! i)) (shape (weights_b ! i)))"
      (is "?L \<longleftrightarrow> ?R")
    proof
      assume ?L
      then obtain i where i: "i < min (length (a # weights_a)) (length (b # weights_b))"
        "\<not> broadcastable (shape ((a # weights_a) ! i)) (shape ((b # weights_b) ! i))" by blast
      with True obtain j where "i = Suc j" by (cases i) auto
      with i show ?R by (intro exI [of _ j]) simp
    next
      assume ?R
      then obtain j where "j < min (length weights_a) (length weights_b)"
        "\<not> broadcastable (shape (weights_a ! j)) (shape (weights_b ! j))" by blast
      then show ?L by (intro exI [of _ "Suc j"]) simp
    qed
    show ?thesis
    proof (cases ?R)
      case True
      then have "tree_binop f weights_a weights_b = Inl ValueError" using "1.IH" [OF t] by simp
      then show ?thesis using t ex True by simp
    next
      case False
      with "1.IH" [OF t] have "\<exists>ts. tree_binop f weights_a weights_b = Inr ts \<and>
           length ts = min (length weights_a) (length weights_b) \<and>
           (\<forall>i < min (length weights_a) (length weights_b).
               np_binop f (weights_a ! i) (weights_b ! i) = Inr (ts ! i))"
        by (simp only: if_False)
      then obtain ts where ts: "tree_binop f weights_a weights_b = Inr ts"
        "length ts = min (length weights_a) (length weights_b)"
        "\<forall>i < min (length weights_a) (length weights_b).
            np_binop f (weights_a ! i) (weights_b ! i) = Inr (ts ! i)"
        by blast
      have "\<forall>i < min (length (a # weights_a)) (length (b # weights_b)).
              np_binop f ((a # weights_a) ! i) ((b # weights_b) ! i) = Inr ((t # ts) ! i)"
        using t ts(3) by (auto simp: nth_Cons split: nat.splits)
      moreover have "tree_binop f (a # weights_a) (b # weights_b) = Inr (t # ts)"
        using t ts(1) by simp
      moreover have "length (t # ts) = min (length (a # weights_a)) (length (b # weights_b))"
        using ts(2) by simp
      moreover have "\<not> ?L" using ex False by blast
      ultimately show ?thesis by (simp only: if_False) blast
    qed
  qed
qed simp_all


lemma tree_binop_mismatch: "shape_mismatch a b \<Longrightarrow> tree_binop f a b = Inl ValueError"
  using tree_binop_cases [of a b f] by (simp add: shape_mismatch_def)

lemma tree_binop_match:
  "\<not> shape_mismatch a b \<Longrightarrow>
   \<exists>ts. tree_binop f a b = Inr ts \<and> length ts = min (length a) (length b)"
  using tree_binop_cases [of a b f] unfolding shape_mismatch_def
  by (simp only: if_False) blast


lemma concat_blocks: "length xs = n * m \<Longrightarrow> concat (map (\<lambda>i. block m i xs) [0..<n]) = xs"
proof (induction n arbitrary: xs)
  case 0
  then show ?case by simp
next
  case (Suc n)
  let ?ys = "take (n * m) xs"
  have len: "length ?ys = n * m" using Suc.prems by simp
  have same: "block m i xs = block m i ?ys" if "i < n" for i
  proof -
    have "Suc i \<le> n" using that by simp
    then have "Suc i * m \<le> n * m" by (rule mult_le_mono1)
    then have "m \<le> n * m - i * m" by simp
    then show ?thesis by (simp add: block_def drop_take min_def)
  qed
  have "concat (map (\<lambda>i. block m i xs) [0..<n]) = concat (map (\<lambda>i. block m i ?ys) [0..<n])"
    using same by (intro arg_cong [where f = concat] map_cong) simp_all
  also have "\<dots> = ?ys" using len by (rule Suc.IH)
  finally have "concat (map (\<lambda>i. block m i xs) [0..<Suc n]) = ?ys @ block m n xs" by simp
  moreover have "block m n xs = drop (n * m) xs" using Suc.prems by (simp add: block_def)
  ultimately show ?case by simp
qed

lemma expand_axes_same: "length xs = prod_list ns \<Longrightarrow> expand_axes ns ns xs = xs"
proof (induction ns arbitrary: xs)
  case Nil
  then show ?case by simp
next
  case (Cons n ns)
  have "expand_axes ns ns (block (prod_list ns) i xs) = block (prod_list ns) i xs" if "i < n" for i
    using block_in_range [of xs n "prod_list ns" i] that Cons.prems by (intro Cons.IH) simp
  then have "concat (map (\<lambda>i. expand_axes ns ns (block (prod_list ns) i xs)) [0..<n])
               = concat (map (\<lambda>i. block (prod_list ns) i xs) [0..<n])"
    by (intro arg_cong [where f = concat] map_cong) simp_all
  then show ?case using concat_blocks [of xs n "prod_list ns"] Cons.prems by simp
qed

lemma broadcast_rev_same: "broadcast_rev xs xs = Some xs"
  by (induction xs) simp_all

lemma np_binop_same_shape:
  assumes "wf_tensor a" "wf_tensor b" "shape a = shape b"
  shows "np_binop f a b = Inr (Tensor (shape a) (map2 f (elems a) (elems b)))"
  using assms expand_axes_same [of "elems a" "shape a"] expand_axes_same [of "elems b" "shape b"]
  by (simp add: np_binop_def broadcast_shapes_def broadcast_rev_same broadcast_to_def ndim_def
      wf_tensor_def)

lemma tree_binop_same_shapes:
  "list_all2 (\<lambda>a b. wf_tensor a \<and> wf_tensor b \<and> shape a = shape b) as bs \<Longrightarrow>
   tree_binop f as bs
     = Inr (map2 (\<lambda>a b. Tensor (shape a) (map2 f (elems a) (elems b))) as bs)"
  by (induction as bs rule: list_all2_induct) (simp_all add: np_binop_same_shape)

text \<open>
  C4, as stated, fails: trees of different lengths are cut to the shorter one by \<open>zip\<close>,
  and tensors whose shapes differ but broadcast are combined; neither raises.
\<close>

theorem binops_length_or_shape_differ_return:
  "sub [Tensor [2] [1, 2 :: real]] [] = Inr []
   \<and> mul [Tensor [2] [1, 2 :: real]] [] = Inr []
   \<and> div_w [Tensor [2] [1, 2 :: real]] [] = Inr []
   \<and> sub [Tensor [2, 1] [1, 2 :: real]] [Tensor [1, 2] [10, 20]]
       = Inr [Tensor [2, 2] [- 9, - 19, - 8, - 18]]
   \<and> mul [Tensor [2, 1] [1, 2 :: real]] [Tensor [1, 2] [10, 20]]
       = Inr [Tensor [2, 2] [10, 20, 20, 40]]
   \<and> div_w [Tensor [2, 1] [10, 20 :: real]] [Tensor [1, 2] [1, 2]]
       = Inr [Tensor [2, 2] [10, 5, 20, 10]]"
  by (simp add: sub_def mul_def div_w_def np_binop_def broadcast_shapes_def broadcast_to_def
      ndim_def block_def upt_rec eval_nat_numeral)

text \<open>
  C4 (amended): for every pair of weight trees \<open>a\<close>, \<open>b\<close>, each of \<open>sub\<close>, \<open>mul\<close> and \<open>div\<close> raises
  a shape-mismatch error (ValueError) exactly when some position below both lengths holds
  two tensors whose shapes numpy cannot broadcast together. Otherwise each returns a tree
  of the shorter tree's length: a difference in length alone, or shapes that differ but
  broadcast, raise nothing.
\<close>

theorem binops_raise_iff_not_broadcastable:
  fixes a b :: "'a::{minus,times,inverse} tensor list"
  shows "(shape_mismatch a b \<longrightarrow>
            sub a b = Inl ValueError \<and> mul a b = Inl ValueError \<and> div_w a b = Inl ValueError)
       \<and> (\<not> shape_mismatch a b \<longrightarrow>
            (\<exists>ts. sub a b = Inr ts \<and> length ts = min (length a) (length b))
          \<and> (\<exists>ts. mul a b = Inr ts \<and> length ts = min (length a) (length b))
          \<and> (\<exists>ts. div_w a b = Inr ts \<and> length ts = min (length a) (length b)))"
proof (cases "shape_mismatch a b")
  case True
  then have "tree_binop f a b = Inl ValueError" for f :: "'a \<Rightarrow> 'a \<Rightarrow> 'a"
    by (rule tree_binop_mismatch)
  then show ?thesis using True by (simp add: sub_def mul_def div_w_def)
next
  case False
  then have "\<exists>ts. tree_binop f a b = Inr ts \<and> length ts = min (length a) (length b)"
    for f :: "'a \<Rightarrow> 'a \<Rightarrow> 'a"
    by (rule tree_binop_match)
  then show ?thesis using False by (simp add: sub_def mul_def div_w_def)
qed

theorem binops_raise_iff_not_broadcastable_witness:
  "shape_mismatch [Tensor [2] [1, 2 :: real], Tensor [3] [1, 2, 3]]
                  [Tensor [2] [3, 4 :: real], Tensor [2] [5, 6]]
   \<and> sub [Tensor [2] [1, 2 :: real], Tensor [3] [1, 2, 3]]
          [Tensor [2] [3, 4 :: real], Tensor [2] [5, 6]] = Inl ValueError
   \<and> mul [Tensor [2] [1, 2 :: real], Tensor [3] [1, 2, 3]]
          [Tensor [2] [3, 4 :: real], Tensor [2] [5, 6]] = Inl ValueError
   \<and> div_w [Tensor [2] [1, 2 :: real], Tensor [3] [1, 2, 3]]
          [Tensor [2] [3, 4 :: real], Tensor [2] [5, 6]] = Inl ValueError
   \<and> \<not> shape_mismatch [Tensor [2] [1, 2 :: real], Tensor [3] [1, 2, 3]] [Tensor [2] [3, 4 :: real]]
   \<and> (\<exists>ts. sub [Tensor [2] [1, 2 :: real], Tensor [3] [1, 2, 3]] [Tensor [2] [3, 4 :: real]] = Inr ts
         \<and> length ts = 1)"
proof -
  let ?a = "[Tensor [2] [1, 2 :: real], Tensor [3] [1, 2, 3]]"
  let ?b = "[Tensor [2] [3, 4 :: real], Tensor [2] [5, 6]]"
  let ?c = "[Tensor [2] [3, 4 :: real]]"
  have "\<not> broadcastable (shape (?a ! 1)) (shape (?b ! 1))" by (simp add: broadcastable_def)
  then have m: "shape_mismatch ?a ?b"
    unfolding shape_mismatch_def by (intro exI [of _ 1]) simp
  have n: "\<not> shape_mismatch ?a ?c" by (simp add: shape_mismatch_def broadcastable_def)
  from binops_raise_iff_not_broadcastable [of ?a ?b] m
  have "sub ?a ?b = Inl ValueError \<and> mul ?a ?b = Inl ValueError \<and> div_w ?a ?b = Inl ValueError"
    by blast
  moreover from binops_raise_iff_not_broadcastable [of ?a ?c] n
  have "\<exists>ts. sub ?a ?c = Inr ts \<and> length ts = 1" by simp
  ultimately show ?thesis using m n by blast
qed

section \<open>The Dirichlet partitioner\<close>

text \<open>
  A numpy \<open>Generator\<close> is a mutable object: each method draws from it and advances its
  state. Here the state is a value of a type \<open>'g\<close>, and a method maps the state before the
  call to its result and the state after. numpy's sampling algorithms are not modelled:
  the methods are parameters of the functions that call them, and the theorems assume of
  them what numpy documents (\<open>dirichlet_ok\<close>, \<open>shuffle_ok\<close>, \<open>choice_ok\<close>).
\<close>

text \<open>
  \<open>xs[i:j]\<close> on a sequence for arbitrary integers: a negative bound counts from the end,
  and both bounds are clamped to the sequence.
\<close>

definition py_slice :: "'a list \<Rightarrow> int \<Rightarrow> int \<Rightarrow> 'a list" where
  "py_slice xs i j =
     (let n = int (length xs);
          lo = (if i < 0 then max 0 (i + n) else min i n);
          hi = (if j < 0 then max 0 (j + n) else min j n)
      in take (nat (hi - lo)) (drop (nat lo) xs))"

text \<open>
  \<open>np.split(ary, indices)\<close> with a list of indices: the sub-arrays
  \<open>ary[0:i0], ary[i0:i1], ..., ary[i_last:len(ary)]\<close>.
\<close>

definition np_split :: "'a list \<Rightarrow> int list \<Rightarrow> 'a list list" where
  "np_split ary indices =
     map (\<lambda>(st, en). py_slice ary st en) (zip (0 # indices) (indices @ [int (length ary)]))"

text \<open>
  \<open>np.cumsum\<close>, \<open>np.round\<close> (halves go to the even neighbour) followed by
  \<open>astype(int)\<close>, and \<open>np.where(Y == c)[0]\<close>. Proportions are real numbers here; the
  proofs use of the arithmetic only that sums of non-negative numbers do not decrease and
  that rounding is monotone.
\<close>

fun cumsum_from :: "real \<Rightarrow> real list \<Rightarrow> real list" where
  "cumsum_from s [] = []"
| "cumsum_from s (x # xs) = (s + x) # cumsum_from (s + x) xs"

definition np_cumsum :: "real list \<Rightarrow> real list" where
  "np_cumsum xs = cumsum_from 0 xs"

definition np_round :: "real \<Rightarrow> int" where
  "np_round x =
     (let f = \<lfloor>x\<rfloor>; d = x - of_int f
      in if d < 1 / 2 then f else if 1 / 2 < d then f + 1 else if even f then f else f + 1)"

definition np_where_eq :: "int list \<Rightarrow> nat \<Rightarrow> nat list" where
  "np_where_eq Y c = filter (\<lambda>i. Y ! i = int c) [0..<length Y]"

text \<open>
  \<open>np.round(np.cumsum(proportions[c]) * len(idx_c)).astype(int)[:-1]\<close>, and
  \<open>[distribution[i] + d.tolist() for i, d in enumerate(dists_c)]\<close>, which raises an
  IndexError when there are more chunks than clients.
\<close>

definition split_points :: "real list \<Rightarrow> nat \<Rightarrow> int list" where
  "split_points row n = butlast (map (\<lambda>s. np_round (s * real n)) (np_cumsum row))"

definition extend_distribution :: "nat list list \<Rightarrow> nat list list \<Rightarrow> py_error + nat list list" where
  "extend_distribution distribution dists_c =
     (if length distribution < length dists_c then Inl IndexError
      else Inr (map2 (@) distribution dists_c))"

text \<open>
  \<^verbatim>\<open>
  def lda(Y, nclients, nclasses, rng, alpha=0.5):
      distribution = [[] for _ in range(nclients)]
      proportions = rng.dirichlet(np.repeat(alpha, nclients), size=nclasses)
      for c in range(nclasses):
          idx_c = np.where(Y == c)[0]
          rng.shuffle(idx_c)
          dists_c = np.split(idx_c,
              np.round(np.cumsum(proportions[c]) * len(idx_c)).astype(int)[:-1])
          distribution = [distribution[i] + d.tolist() for i, d in enumerate(dists_c)]
      return distribution
  \<close>
  The result is returned together with the generator's final state.
\<close>

fun lda_loop ::
  "('g \<Rightarrow> nat list \<Rightarrow> nat list \<times> 'g) \<Rightarrow> int list \<Rightarrow> real list list \<Rightarrow> nat list \<Rightarrow>
   nat list list \<Rightarrow> 'g \<Rightarrow> py_error + (nat list list \<times> 'g)"
where
  "lda_loop shuffle Y proportions [] distribution g = Inr (distribution, g)"
| "lda_loop shuffle Y proportions (c # cs) distribution g =
     (case shuffle g (np_where_eq Y c) of (idx_c, g') \<Rightarrow>
        (case getitem proportions c of
           Inl err \<Rightarrow> Inl err
         | Inr row \<Rightarrow>
             (case extend_distribution distribution
                     (np_split idx_c (split_points row (length idx_c))) of
                Inl err \<Rightarrow> Inl err
              | Inr distribution' \<Rightarrow> lda_loop shuffle Y proportions cs distribution' g')))"

definition lda ::
  "('g \<Rightarrow> real list \<Rightarrow> nat \<Rightarrow> real list list \<times> 'g) \<Rightarrow> ('g \<Rightarrow> nat list \<Rightarrow> nat list \<times> 'g) \<Rightarrow>
   int list \<Rightarrow> nat \<Rightarrow> nat \<Rightarrow> 'g \<Rightarrow> real \<Rightarrow> py_error + (nat list list \<times> 'g)"
where
  "lda dirichlet shuffle Y nclients nclasses rng alpha =
     (case dirichlet rng (replicate nclients alpha) nclasses of (proportions, g) \<Rightarrow>
        lda_loop shuffle Y proportions [0..<nclasses] (replicate nclients []) g)"

text \<open>
  What the theorems assume of the generator. \<open>rng.dirichlet(alphas, size=n)\<close> with positive
  concentrations returns \<open>n\<close> rows of \<open>len(alphas)\<close> non-negative proportions each;
  \<open>rng.shuffle(xs)\<close> permutes \<open>xs\<close>.
\<close>

definition dirichlet_ok :: "('g \<Rightarrow> real list \<Rightarrow> nat \<Rightarrow> real list list \<times> 'g) \<Rightarrow> bool" where
  "dirichlet_ok dirichlet \<longleftrightarrow>
     (\<forall>g alphas size. list_all (\<lambda>a. 0 < a) alphas \<and> alphas \<noteq> [] \<longrightarrow>
        length (fst (dirichlet g alphas size)) = size \<and>
        list_all (\<lambda>row. length row = length alphas \<and> list_all (\<lambda>p. 0 \<le> p) row)
          (fst (dirichlet g alphas size)))"

definition shuffle_ok :: "('g \<Rightarrow> nat list \<Rightarrow> nat list \<times> 'g) \<Rightarrow> bool" where
  "shuffle_ok shuffle \<longleftrightarrow> (\<forall>g xs. mset (fst (shuffle g xs)) = mset xs)"

text \<open>A deterministic stand-in for a generator, for the examples: its state counts the calls.\<close>

definition toy_dirichlet :: "nat \<Rightarrow> real list \<Rightarrow> nat \<Rightarrow> real list list \<times> nat" where
  "toy_dirichlet g alphas sz = (replicate sz (map (\<lambda>_. 1 / real (length alphas)) alphas), Suc g)"

definition toy_shuffle :: "nat \<Rightarrow> nat list \<Rightarrow> nat list \<times> nat" where
  "toy_shuffle g xs = (rev xs, Suc g)"

lemma toy_dirichlet_ok: "dirichlet_ok toy_dirichlet"
  by (simp add: dirichlet_ok_def toy_dirichlet_def list_all_iff)

lemma toy_shuffle_ok: "shuffle_ok toy_shuffle"
  by (simp add: shuffle_ok_def toy_shuffle_def)

subsection \<open>Split points and chunks\<close>

lemma np_round_mono: "x \<le> y \<Longrightarrow> np_round x \<le> np_round y"
proof -
  assume xy: "x \<le> y"
  have lo: "\<lfloor>z\<rfloor> \<le> np_round z" and hi: "np_round z \<le> \<lfloor>z\<rfloor> + 1" for z
    by (simp_all add: np_round_def Let_def)
  show ?thesis
  proof (cases "\<lfloor>x\<rfloor> < \<lfloor>y\<rfloor>")
    case True
    then show ?thesis using hi [of x] lo [of y] by linarith
  next
    case False
    then have eq: "\<lfloor>x\<rfloor> = \<lfloor>y\<rfloor>" using floor_mono [OF xy] by linarith
    then show ?thesis using xy by (auto simp: np_round_def Let_def)
  qed
qed

lemma np_round_nonneg: "0 \<le> x \<Longrightarrow> 0 \<le> np_round x"
  using np_round_mono [of 0 x] by (simp add: np_round_def)

lemma cumsum_from_sorted:
  "list_all (\<lambda>p. 0 \<le> p) xs \<Longrightarrow> sorted (cumsum_from s xs) \<and> list_all (\<lambda>c. s \<le> c) (cumsum_from s xs)"
proof (induction xs arbitrary: s)
  case Nil
  then show ?case by simp
next
  case (Cons x xs)
  then have x: "0 \<le> x" and rest: "list_all (\<lambda>p. 0 \<le> p) xs" by simp_all
  from Cons.IH [OF rest, of "s + x"] have
    "sorted (cumsum_from (s + x) xs)" "list_all (\<lambda>c. s + x \<le> c) (cumsum_from (s + x) xs)"
    by simp_all
  then show ?case using x by (auto simp: list_all_iff)
qed

lemma length_cumsum_from: "length (cumsum_from s xs) = length xs"
  by (induction xs arbitrary: s) simp_all

lemma split_points_props:
  assumes "list_all (\<lambda>p. 0 \<le> p) row"
  shows "sorted (split_points row n)" "list_all (\<lambda>p. 0 \<le> p) (split_points row n)"
    "length (split_points row n) = length row - 1"
proof -
  from cumsum_from_sorted [OF assms, of 0] have s: "sorted (np_cumsum row)"
    and nn: "list_all (\<lambda>c. 0 \<le> c) (np_cumsum row)" by (simp_all add: np_cumsum_def)
  let ?f = "\<lambda>s. np_round (s * real n)"
  have "sorted (map ?f (np_cumsum row))"
    using s by (auto simp: sorted_map intro!: np_round_mono mult_right_mono
        elim!: sorted_wrt_mono_rel [rotated])
  then show "sorted (split_points row n)"
    unfolding split_points_def by (rule sorted_butlast)
  have "list_all (\<lambda>p. 0 \<le> p) (map ?f (np_cumsum row))"
    using nn by (auto simp: list_all_iff intro!: np_round_nonneg)
  then have "\<forall>p \<in> set (map ?f (np_cumsum row)). 0 \<le> p" by (simp only: list_all_iff)
  then have "\<forall>p \<in> set (butlast (map ?f (np_cumsum row))). 0 \<le> p"
    by (blast dest: in_set_butlastD)
  then show "list_all (\<lambda>p. 0 \<le> p) (split_points row n)"
    unfolding split_points_def by (simp only: list_all_iff)
  show "length (split_points row n) = length row - 1"
    by (simp add: split_points_def np_cumsum_def length_cumsum_from)
qed

lemma py_slice_nonneg:
  "0 \<le> i \<Longrightarrow> 0 \<le> j \<Longrightarrow>
   py_slice xs i j = take (min (nat j) (length xs) - min (nat i) (length xs))
                          (drop (min (nat i) (length xs)) xs)"
  by (simp add: py_slice_def Let_def min_def) (auto intro: arg_cong2 [where f = take])

lemma concat_slices:
  "sorted (a # pts) \<Longrightarrow> 0 \<le> a \<Longrightarrow>
   concat (map (\<lambda>(st, en). py_slice xs st en) (zip (a # pts) (pts @ [int (length xs)])))
     = drop (min (nat a) (length xs)) xs"
proof (induction pts arbitrary: a)
  case Nil
  then show ?case by (simp add: py_slice_nonneg)
next
  case (Cons p pts)
  then have ap: "a \<le> p" and sp: "sorted (p # pts)" and p0: "0 \<le> p" by auto
  let ?n = "length xs"
  have "nat a \<le> nat p" using ap by simp
  then have le: "min (nat a) ?n \<le> min (nat p) ?n" by (simp add: min_def)
  have "concat (map (\<lambda>(st, en). py_slice xs st en) (zip (a # p # pts) ((p # pts) @ [int ?n])))
          = py_slice xs a p @ drop (min (nat p) ?n) xs"
    using Cons.IH [OF sp p0] by simp
  also have "\<dots> = take (min (nat p) ?n - min (nat a) ?n) (drop (min (nat a) ?n) xs)
                    @ drop (min (nat p) ?n) xs"
    using Cons.prems(2) p0 by (simp add: py_slice_nonneg)
  also have "\<dots> = drop (min (nat a) ?n) xs"
  proof -
    have "drop (min (nat p) ?n) xs
            = drop (min (nat p) ?n - min (nat a) ?n) (drop (min (nat a) ?n) xs)"
      using le by simp
    then show ?thesis by (simp only: append_take_drop_id)
  qed
  finally show ?case .
qed

lemma concat_np_split:
  "sorted pts \<Longrightarrow> list_all (\<lambda>p. 0 \<le> p) pts \<Longrightarrow> concat (np_split xs pts) = xs"
  using concat_slices [of 0 pts xs] by (simp add: np_split_def list_all_iff)

lemma length_np_split: "length (np_split xs pts) = Suc (length pts)"
  by (simp add: np_split_def)

lemma mset_concat_map2_append:
  "length xs = length ys \<Longrightarrow>
   mset (concat (map2 (@) xs ys)) = mset (concat xs) + mset (concat ys)"
  by (induction xs ys rule: list_induct2) simp_all

lemma lda_loop_invariant:
  assumes sh: "shuffle_ok shuffle"
    and k: "0 < k"
  shows "list_all (\<lambda>c. c < length proportions) cs \<Longrightarrow>
     list_all (\<lambda>row. length row = k \<and> list_all (\<lambda>p. 0 \<le> p) row) proportions \<Longrightarrow>
     length d = k \<Longrightarrow>
     \<exists>d' g'. lda_loop shuffle Y proportions cs d g = Inr (d', g') \<and> length d' = k \<and>
        mset (concat d') = mset (concat d) + mset (concat (map (np_where_eq Y) cs))"
proof (induction cs arbitrary: d g)
  case Nil
  then show ?case by simp
next
  case (Cons c cs)
  obtain idx_c g1 where s: "shuffle g (np_where_eq Y c) = (idx_c, g1)"
    by (cases "shuffle g (np_where_eq Y c)")
  from sh s have perm: "mset idx_c = mset (np_where_eq Y c)"
    unfolding shuffle_ok_def by (metis fst_conv)
  from Cons.prems(1) have c: "c < length proportions"
    and cs: "list_all (\<lambda>c. c < length proportions) cs" by simp_all
  let ?row = "proportions ! c"
  from Cons.prems(2) c have row: "length ?row = k" "list_all (\<lambda>p. 0 \<le> p) ?row"
    by (simp_all add: list_all_length)
  let ?pts = "split_points ?row (length idx_c)"
  let ?dists = "np_split idx_c ?pts"
  from split_points_props [OF row(2), of "length idx_c"] row(1) k
  have pts: "sorted ?pts" "list_all (\<lambda>p. 0 \<le> p) ?pts" "Suc (length ?pts) = k" by simp_all
  have len: "length ?dists = k" using pts(3) by (simp add: length_np_split)
  have cat: "concat ?dists = idx_c" using pts(1,2) by (rule concat_np_split)
  let ?d1 = "map2 (@) d ?dists"
  have ext: "extend_distribution d ?dists = Inr ?d1"
    using len Cons.prems(3) by (simp add: extend_distribution_def)
  have len1: "length ?d1 = k" using len Cons.prems(3) by simp
  have m1: "mset (concat ?d1) = mset (concat d) + mset (np_where_eq Y c)"
    using mset_concat_map2_append [of d ?dists] len Cons.prems(3) cat perm by simp
  from Cons.IH [OF cs Cons.prems(2) len1, of g1] obtain d' g' where
    r: "lda_loop shuffle Y proportions cs ?d1 g1 = Inr (d', g')" "length d' = k"
       "mset (concat d') = mset (concat ?d1) + mset (concat (map (np_where_eq Y) cs))"
    by blast
  have "lda_loop shuffle Y proportions (c # cs) d g = Inr (d', g')"
    using s c ext r(1) by (simp add: getitem_def)
  then show ?case using r(2,3) m1 by (simp add: ac_simps)
qed

lemma distinct_np_where:
  "distinct cs \<Longrightarrow> distinct (concat (map (np_where_eq Y) cs))"
  by (induction cs) (auto simp: np_where_eq_def)

lemma set_np_where:
  "set (concat (map (np_where_eq Y) cs)) = {j. j < length Y \<and> (\<exists>c \<in> set cs. Y ! j = int c)}"
  by (auto simp: np_where_eq_def)

lemma distinct_concat_disjoint:
  "distinct (concat xs) \<Longrightarrow> i < j \<Longrightarrow> j < length xs \<Longrightarrow> set (xs ! i) \<inter> set (xs ! j) = {}"
proof (induction xs arbitrary: i j)
  case Nil
  then show ?case by simp
next
  case (Cons x xs)
  obtain j' where j: "j = Suc j'" using Cons.prems(2) by (cases j) auto
  show ?case
  proof (cases i)
    case 0
    have "xs ! j' \<in> set xs" using Cons.prems(3) j by simp
    then have "set (xs ! j') \<subseteq> set (concat xs)" by auto
    then show ?thesis using Cons.prems(1) 0 j by auto
  next
    case (Suc i')
    then show ?thesis using Cons.IH [of i' j'] Cons.prems j by simp
  qed
qed

text \<open>
  C6: for every label vector \<open>Y\<close>, client count \<open>k \<ge> 1\<close>, class count \<open>C\<close>, generator and
  \<open>alpha > 0\<close>, \<open>lda\<close> returns exactly \<open>k\<close> index lists such that, for every class \<open>c < C\<close>,
  the union over the clients of the returned indices whose label is \<open>c\<close> is the set of all
  positions of \<open>Y\<close> holding \<open>c\<close>, and no index appears in two different clients' lists (nor
  twice in one list).
\<close>

theorem lda_partitions_every_class:
  assumes dir: "dirichlet_ok dirichlet" and sh: "shuffle_ok shuffle"
    and k: "1 \<le> nclients" and alpha: "0 < alpha"
  shows "\<exists>d g'. lda dirichlet shuffle Y nclients nclasses rng alpha = Inr (d, g') \<and>
           length d = nclients \<and>
           (\<forall>c < nclasses. (\<Union>i < nclients. {j \<in> set (d ! i). Y ! j = int c})
                              = {j. j < length Y \<and> Y ! j = int c}) \<and>
           (\<forall>i < nclients. \<forall>j < nclients. i \<noteq> j \<longrightarrow> set (d ! i) \<inter> set (d ! j) = {}) \<and>
           (\<forall>i < nclients. distinct (d ! i))"
proof -
  obtain proportions g where p: "dirichlet rng (replicate nclients alpha) nclasses = (proportions, g)"
    by (cases "dirichlet rng (replicate nclients alpha) nclasses")
  have al: "list_all (\<lambda>a. 0 < a) (replicate nclients alpha) \<and> replicate nclients alpha \<noteq> []"
    using k alpha by (simp add: list_all_iff)
  from dir al p have plen: "length proportions = nclasses"
    and rows: "list_all (\<lambda>row. length row = nclients \<and> list_all (\<lambda>p. 0 \<le> p) row) proportions"
    unfolding dirichlet_ok_def by (metis fst_conv length_replicate)+
  have cs: "list_all (\<lambda>c. c < length proportions) [0..<nclasses]"
    using plen by (simp add: list_all_iff)
  from k have k0: "0 < nclients" by simp
  from lda_loop_invariant [OF sh k0 cs rows, of "replicate nclients []" Y g]
  obtain d g' where run: "lda_loop shuffle Y proportions [0..<nclasses] (replicate nclients []) g
                            = Inr (d, g')"
    and len: "length d = nclients"
    and ms: "mset (concat d) = mset (concat (replicate nclients ([] :: nat list)))
                                 + mset (concat (map (np_where_eq Y) [0..<nclasses]))"
    by auto
  have "concat (replicate nclients ([] :: nat list)) = []" by (induction nclients) simp_all
  with ms have ms': "mset (concat d) = mset (concat (map (np_where_eq Y) [0..<nclasses]))" by simp
  have dist: "distinct (concat d)"
    using distinct_np_where [of "[0..<nclasses]" Y] mset_eq_imp_distinct_iff [OF ms'] by simp
  have "set (concat d) = set (concat (map (np_where_eq Y) [0..<nclasses]))"
    using ms' by (rule mset_eq_setD)
  also have "\<dots> = {j. j < length Y \<and> (\<exists>c \<in> set [0..<nclasses]. Y ! j = int c)}"
    by (rule set_np_where)
  also have "\<dots> = {j. j < length Y \<and> (\<exists>c < nclasses. Y ! j = int c)}" by auto
  finally have sets: "set (concat d) = {j. j < length Y \<and> (\<exists>c < nclasses. Y ! j = int c)}" .
  have res: "lda dirichlet shuffle Y nclients nclasses rng alpha = Inr (d, g')"
    using p run by (simp add: lda_def)
  have cover: "(\<Union>i < nclients. {j \<in> set (d ! i). Y ! j = int c}) = {j. j < length Y \<and> Y ! j = int c}"
    if c: "c < nclasses" for c
  proof -
    have "(\<Union>i < nclients. {j \<in> set (d ! i). Y ! j = int c}) = {j \<in> set (concat d). Y ! j = int c}"
    proof (intro set_eqI iffI)
      fix x assume "x \<in> (\<Union>i < nclients. {j \<in> set (d ! i). Y ! j = int c})"
      then obtain i where i: "i < nclients" "x \<in> set (d ! i)" "Y ! x = int c" by blast
      then have "d ! i \<in> set d" using len by simp
      then show "x \<in> {j \<in> set (concat d). Y ! j = int c}" using i(2,3) by auto
    next
      fix x assume "x \<in> {j \<in> set (concat d). Y ! j = int c}"
      then obtain xs where xs: "xs \<in> set d" "x \<in> set xs" and y: "Y ! x = int c" by auto
      from xs(1) obtain i where "i < length d" "d ! i = xs" by (auto simp: in_set_conv_nth)
      then show "x \<in> (\<Union>i < nclients. {j \<in> set (d ! i). Y ! j = int c})"
        using xs(2) y len by blast
    qed
    also have "\<dots> = {j. j < length Y \<and> Y ! j = int c}" using sets c by auto
    finally show ?thesis .
  qed
  have disj: "set (d ! i) \<inter> set (d ! j) = {}" if "i < nclients" "j < nclients" "i \<noteq> j" for i j
  proof (cases "i < j")
    case True
    then show ?thesis using distinct_concat_disjoint [OF dist, of i j] that len by simp
  next
    case False
    then have "j < i" using that(3) by simp
    then show ?thesis using distinct_concat_disjoint [OF dist, of j i] that len by auto
  qed
  have each: "distinct (d ! i)" if "i < nclients" for i
    using dist that len by (auto simp: distinct_concat_iff)
  from res len cover disj each show ?thesis by blast
qed


theorem lda_partitions_every_class_witness:
  "lda toy_dirichlet toy_shuffle [0, 1, 0, 1, 1, 0] 2 2 0 (1 / 2) = Inr ([[5, 2, 4, 3], [0, 1]], 3)
   \<and> (\<exists>d g'. lda toy_dirichlet toy_shuffle [0, 1, 0, 1, 1, 0] 2 2 0 (1 / 2) = Inr (d, g')
         \<and> length d = 2 \<and> set (d ! 0) \<inter> set (d ! 1) = {}
         \<and> (\<Union>i < 2. {j \<in> set (d ! i). [0, 1, 0, 1, 1, 0 :: int] ! j = int 1})
             = {j. j < length [0, 1, 0, 1, 1, 0 :: int] \<and> [0, 1, 0, 1, 1, 0 :: int] ! j = int 1})"
proof -
  have ev: "lda toy_dirichlet toy_shuffle [0, 1, 0, 1, 1, 0] 2 2 0 (1 / 2)
              = Inr ([[5, 2, 4, 3], [0, 1]], 3)"
    by code_simp
  have k: "(1::nat) \<le> 2" and a: "(0::real) < 1 / 2" by simp_all
  from lda_partitions_every_class [OF toy_dirichlet_ok toy_shuffle_ok k a,
      of "[0, 1, 0, 1, 1, 0]" 2 0]
  obtain d g' where r: "lda toy_dirichlet toy_shuffle [0, 1, 0, 1, 1, 0] 2 2 0 (1 / 2) = Inr (d, g')"
    "length d = 2"
    "\<forall>c < 2. (\<Union>i < 2. {j \<in> set (d ! i). [0, 1, 0, 1, 1, 0 :: int] ! j = int c})
                = {j. j < length [0, 1, 0, 1, 1, 0 :: int] \<and> [0, 1, 0, 1, 1, 0 :: int] ! j = int c}"
    "\<forall>i < 2. \<forall>j < 2. i \<noteq> j \<longrightarrow> set (d ! i) \<inter> set (d ! j) = {}"
    by blast
  from r(4) have "set (d ! 0) \<inter> set (d ! 1) = {}" by simp
  moreover have lt: "(1::nat) < 2" by simp
  have "(\<Union>i < 2. {j \<in> set (d ! i). [0, 1, 0, 1, 1, 0 :: int] ! j = int 1})
             = {j. j < length [0, 1, 0, 1, 1, 0 :: int] \<and> [0, 1, 0, 1, 1, 0 :: int] ! j = int 1}"
    by (rule r(3) [rule_format, OF lt])
  ultimately show ?thesis using ev r(1,2) by blast
qed

section \<open>Generators as objects\<close>

text \<open>
  Generators are shared by reference: a \<open>DataIter\<close> keeps the generator it was given, and a
  default argument \<open>rng=np.random.default_rng()\<close> is evaluated once, when the function is
  defined, so each of the four functions that has one owns a generator created at import
  time. A reference names a generator; the store maps every reference to that generator's
  current state. \<open>Supplied n\<close> are the generators the caller creates.
\<close>

datatype rng_ref = DefaultUniform | DefaultAddNormal | DefaultGetIter | DefaultFedSplit | Supplied nat

type_synonym 'g rng_store = "rng_ref \<Rightarrow> 'g"

section \<open>DataIter\<close>

text \<open>
  \<^verbatim>\<open>
  class DataIter:
      def __init__(self, X, y, batch_size, classes, rng):
          self.X = X
          self.y = y
          self.batch_size = y.shape[0] if batch_size is None else min(batch_size, y.shape[0])
          self.idx = np.arange(y.shape[0])
          self.classes = classes
          self.rng = rng
  \<close>
  \<open>X\<close> and \<open>y\<close> are arrays indexed along their first axis: lists of rows. A batch size is
  a count. After construction \<open>self.batch_size\<close> is a number, never \<open>None\<close>, so the field
  is a number and the \<open>is None\<close> branches of \<open>map\<close> and \<open>filter\<close> cannot be taken.
\<close>

record ('x, 'y) DataIter =
  iter_X :: "'x list"
  iter_y :: "'y list"
  iter_batch_size :: nat
  iter_idx :: "nat list"
  iter_classes :: nat
  iter_rng :: rng_ref

definition DataIter_init ::
  "'x list \<Rightarrow> 'y list \<Rightarrow> nat option \<Rightarrow> nat \<Rightarrow> rng_ref \<Rightarrow> ('x, 'y) DataIter"
where
  "DataIter_init X y batch_size classes rng =
     \<lparr>iter_X = X, iter_y = y,
      iter_batch_size = (case batch_size of None \<Rightarrow> length y | Some b \<Rightarrow> min b (length y)),
      iter_idx = [0..<length y], iter_classes = classes, iter_rng = rng\<rparr>"

text \<open>
  \<open>rng.choice(a, n, replace=False)\<close>: a ValueError when the sample is larger than the
  population. \<open>xs[sel]\<close> with an array of indices raises an IndexError when one is out of
  range.
\<close>

definition rng_choice ::
  "('g \<Rightarrow> nat list \<Rightarrow> nat \<Rightarrow> nat list \<times> 'g) \<Rightarrow> 'g \<Rightarrow> nat list \<Rightarrow> nat \<Rightarrow> py_error + (nat list \<times> 'g)"
where
  "rng_choice choice g a n = (if length a < n then Inl ValueError else Inr (choice g a n))"

definition take_rows :: "'a list \<Rightarrow> nat list \<Rightarrow> py_error + 'a list" where
  "take_rows xs sel =
     (if list_all (\<lambda>i. i < length xs) sel then Inr (map ((!) xs) sel) else Inl IndexError)"

text \<open>
  \<^verbatim>\<open>
      def __next__(self):
          idx = self.rng.choice(self.idx, self.batch_size, replace=False)
          return self.X[idx], self.y[idx]
  \<close>
  The call returns the batch and the store in which the iterator's generator has advanced.
  \<open>DataIter_take\<close> is \<open>m\<close> calls of \<open>next\<close> in a row.
\<close>

definition DataIter_next ::
  "('g \<Rightarrow> nat list \<Rightarrow> nat \<Rightarrow> nat list \<times> 'g) \<Rightarrow> ('x, 'y) DataIter \<Rightarrow> 'g rng_store \<Rightarrow>
   py_error + (('x list \<times> 'y list) \<times> 'g rng_store)"
where
  "DataIter_next choice self store =
     (case rng_choice choice (store (iter_rng self)) (iter_idx self) (iter_batch_size self) of
        Inl err \<Rightarrow> Inl err
      | Inr (sel, g') \<Rightarrow>
          (case take_rows (iter_X self) sel of
             Inl err \<Rightarrow> Inl err
           | Inr bx \<Rightarrow>
               (case take_rows (iter_y self) sel of
                  Inl err \<Rightarrow> Inl err
                | Inr by \<Rightarrow> Inr ((bx, by), store(iter_rng self := g')))))"

fun DataIter_take ::
  "('g \<Rightarrow> nat list \<Rightarrow> nat \<Rightarrow> nat list \<times> 'g) \<Rightarrow> ('x, 'y) DataIter \<Rightarrow> 'g rng_store \<Rightarrow> nat \<Rightarrow>
   py_error + (('x list \<times> 'y list) list \<times> 'g rng_store)"
where
  "DataIter_take choice self store 0 = Inr ([], store)"
| "DataIter_take choice self store (Suc m) =
     (case DataIter_next choice self store of
        Inl err \<Rightarrow> Inl err
      | Inr (b, store') \<Rightarrow>
          (case DataIter_take choice self store' m of
             Inl err \<Rightarrow> Inl err
           | Inr (bs, store'') \<Rightarrow> Inr (b # bs, store'')))"

text \<open>
  An index array: a boolean mask, which must have the indexed length, or integers, where a
  negative one counts from the end. Both raise an IndexError otherwise.
\<close>

datatype indexer = Mask "bool list" | Ints "int list"

fun np_index :: "'a list \<Rightarrow> indexer \<Rightarrow> py_error + 'a list" where
  "np_index xs (Mask m) =
     (if length m = length xs then Inr (map fst (filter snd (zip xs m))) else Inl IndexError)"
| "np_index xs (Ints is) =
     (if list_all (\<lambda>i. - int (length xs) \<le> i \<and> i < int (length xs)) is
      then Inr (map (\<lambda>i. xs ! nat (if i < 0 then i + int (length xs) else i)) is)
      else Inl IndexError)"

text \<open>
  \<^verbatim>\<open>
      def map(self, f):
          self.X, self.y = f(self.X, self.y)
          self.idx = np.arange(self.y.shape[0])
          self.batch_size = (self.y.shape[0] if self.batch_size is None
                             else min(self.batch_size, self.y.shape[0]))
          return self

      def filter(self, f):
          idx = f(self.y)
          self.X, self.y = self.X[idx], self.y[idx]
          self.idx = np.arange(self.y.shape[0])
          self.batch_size = (self.y.shape[0] if self.batch_size is None
                             else min(self.batch_size, self.y.shape[0]))
          return self
  \<close>
  The caller's function may raise; the right-hand side is evaluated before anything is
  assigned, so a raise leaves the iterator as it was. The updated iterator is returned.
\<close>

definition DataIter_map ::
  "('x list \<Rightarrow> 'y list \<Rightarrow> py_error + ('x list \<times> 'y list)) \<Rightarrow> ('x, 'y) DataIter \<Rightarrow>
   py_error + ('x, 'y) DataIter"
where
  "DataIter_map f self =
     (case f (iter_X self) (iter_y self) of
        Inl err \<Rightarrow> Inl err
      | Inr (X', y') \<Rightarrow>
          Inr (self\<lparr>iter_X := X', iter_y := y', iter_idx := [0..<length y'],
                    iter_batch_size := min (iter_batch_size self) (length y')\<rparr>))"

definition DataIter_filter ::
  "('y list \<Rightarrow> py_error + indexer) \<Rightarrow> ('x, 'y) DataIter \<Rightarrow> py_error + ('x, 'y) DataIter"
where
  "DataIter_filter f self =
     (case f (iter_y self) of
        Inl err \<Rightarrow> Inl err
      | Inr ix \<Rightarrow>
          (case np_index (iter_X self) ix of
             Inl err \<Rightarrow> Inl err
           | Inr X' \<Rightarrow>
               (case np_index (iter_y self) ix of
                  Inl err \<Rightarrow> Inl err
                | Inr y' \<Rightarrow>
                    Inr (self\<lparr>iter_X := X', iter_y := y', iter_idx := [0..<length y'],
                              iter_batch_size := min (iter_batch_size self) (length y')\<rparr>))))"

text \<open>A sequence of \<open>map\<close> and \<open>filter\<close> calls on one iterator, stopping at the first raise.\<close>

datatype ('x, 'y) iter_call =
  MapCall "'x list \<Rightarrow> 'y list \<Rightarrow> py_error + ('x list \<times> 'y list)"
| FilterCall "'y list \<Rightarrow> py_error + indexer"

fun DataIter_calls :: "('x, 'y) iter_call list \<Rightarrow> ('x, 'y) DataIter \<Rightarrow> py_error + ('x, 'y) DataIter" where
  "DataIter_calls [] self = Inr self"
| "DataIter_calls (MapCall f # cs) self =
     (case DataIter_map f self of Inl err \<Rightarrow> Inl err | Inr self' \<Rightarrow> DataIter_calls cs self')"
| "DataIter_calls (FilterCall f # cs) self =
     (case DataIter_filter f self of Inl err \<Rightarrow> Inl err | Inr self' \<Rightarrow> DataIter_calls cs self')"

text \<open>
  What the theorems assume of \<open>rng.choice(a, n, replace=False)\<close> for \<open>n \<le> len(a)\<close>: it
  returns the elements at \<open>n\<close> distinct positions of \<open>a\<close>. \<open>DataIter_inv\<close> is the invariant
  of C10.
\<close>

definition choice_ok :: "('g \<Rightarrow> nat list \<Rightarrow> nat \<Rightarrow> nat list \<times> 'g) \<Rightarrow> bool" where
  "choice_ok choice \<longleftrightarrow>
     (\<forall>g a n. n \<le> length a \<longrightarrow>
        (\<exists>ps. distinct ps \<and> length ps = n \<and> list_all (\<lambda>p. p < length a) ps \<and>
              fst (choice g a n) = map ((!) a) ps))"

definition DataIter_inv :: "('x, 'y) DataIter \<Rightarrow> bool" where
  "DataIter_inv self \<longleftrightarrow>
     iter_batch_size self \<le> length (iter_y self) \<and> iter_idx self = [0..<length (iter_y self)]"

definition toy_choice :: "nat \<Rightarrow> nat list \<Rightarrow> nat \<Rightarrow> nat list \<times> nat" where
  "toy_choice g a n = (take n a, Suc g)"

subsection \<open>Properties of DataIter\<close>

lemma choice_from_range:
  assumes "choice_ok choice" "n \<le> m"
  shows "distinct (fst (choice g [0..<m] n)) \<and> length (fst (choice g [0..<m] n)) = n \<and>
         list_all (\<lambda>i. i < m) (fst (choice g [0..<m] n))"
proof -
  from assms obtain ps where ps: "distinct ps" "length ps = n" "list_all (\<lambda>p. p < m) ps"
    "fst (choice g [0..<m] n) = map ((!) [0..<m]) ps"
    unfolding choice_ok_def by (metis length_upt minus_nat.diff_0)
  have "map ((!) [0..<m]) ps = ps"
    using ps(3) by (induction ps) simp_all
  then show ?thesis using ps by simp
qed

lemma DataIter_next_ok:
  assumes ok: "choice_ok choice"
    and inv: "DataIter_inv self"
    and len: "length (iter_X self) = length (iter_y self)"
  shows "\<exists>sel g'. DataIter_next choice self store
            = Inr ((map ((!) (iter_X self)) sel, map ((!) (iter_y self)) sel),
                   store(iter_rng self := g')) \<and>
           distinct sel \<and> length sel = iter_batch_size self \<and>
           list_all (\<lambda>i. i < length (iter_y self)) sel"
proof -
  let ?m = "length (iter_y self)"
  let ?n = "iter_batch_size self"
  from inv have n: "?n \<le> ?m" and ix: "iter_idx self = [0..<?m]" by (simp_all add: DataIter_inv_def)
  obtain sel g' where c: "choice (store (iter_rng self)) [0..<?m] ?n = (sel, g')"
    by (cases "choice (store (iter_rng self)) [0..<?m] ?n")
  from choice_from_range [OF ok n, of "store (iter_rng self)"] c
  have sel: "distinct sel" "length sel = ?n" "list_all (\<lambda>i. i < ?m) sel" by simp_all
  have "DataIter_next choice self store
          = Inr ((map ((!) (iter_X self)) sel, map ((!) (iter_y self)) sel),
                 store(iter_rng self := g'))"
    using n ix c sel(3) len by (simp add: DataIter_next_def rng_choice_def take_rows_def)
  then show ?thesis using sel by blast
qed


lemma toy_choice_ok: "choice_ok toy_choice"
  unfolding choice_ok_def
proof (intro allI impI)
  fix g :: nat and a :: "nat list" and n assume n: "n \<le> length a"
  have "map ((!) a) [0..<n] = take n a"
    using n by (intro nth_equalityI) simp_all
  then have "distinct [0..<n] \<and> length [0..<n] = n \<and> list_all (\<lambda>p. p < length a) [0..<n] \<and>
             fst (toy_choice g a n) = map ((!) a) [0..<n]"
    using n by (simp add: toy_choice_def list_all_iff)
  then show "\<exists>ps. distinct ps \<and> length ps = n \<and> list_all (\<lambda>p. p < length a) ps \<and>
                  fst (toy_choice g a n) = map ((!) a) ps" by blast
qed

lemma DataIter_init_inv: "DataIter_inv (DataIter_init Xs ys b classes r)"
  by (cases b) (simp_all add: DataIter_inv_def DataIter_init_def)

lemma DataIter_map_inv: "DataIter_map f self = Inr self' \<Longrightarrow> DataIter_inv self'"
  by (auto simp: DataIter_map_def DataIter_inv_def split: sum.splits prod.splits)

lemma DataIter_filter_inv: "DataIter_filter f self = Inr self' \<Longrightarrow> DataIter_inv self'"
  by (auto simp: DataIter_filter_def DataIter_inv_def split: sum.splits)

lemma DataIter_calls_inv:
  "DataIter_inv self \<Longrightarrow> DataIter_calls cs self = Inr self' \<Longrightarrow> DataIter_inv self'"
proof (induction cs self rule: DataIter_calls.induct)
  case (1 self)
  then show ?case by simp
next
  case (2 f cs self)
  then show ?case by (auto split: sum.splits dest: DataIter_map_inv)
next
  case (3 f cs self)
  then show ?case by (auto split: sum.splits dest: DataIter_filter_inv)
qed

lemma DataIter_take_ok:
  assumes "choice_ok choice" "DataIter_inv self" "length (iter_X self) = length (iter_y self)"
  shows "\<exists>bs store'. DataIter_take choice self store m = Inr (bs, store') \<and> length bs = m"
proof (induction m arbitrary: store)
  case 0
  then show ?case by simp
next
  case (Suc m)
  from DataIter_next_ok [OF assms, of store] obtain b store1 where
    n: "DataIter_next choice self store = Inr (b, store1)" by blast
  from Suc [of store1] obtain bs store2 where
    t: "DataIter_take choice self store1 m = Inr (bs, store2)" "length bs = m" by blast
  have "DataIter_take choice self store (Suc m) = Inr (b # bs, store2)"
    using n t(1) by simp
  then show ?case using t(2) by simp
qed

text \<open>
  C7: for every DataIter constructed with requested batch size \<open>b\<close> over \<open>n\<close> held samples,
  \<open>batch_size\<close> is \<open>min b n\<close>; every call of \<open>next\<close>, whatever the generator's state,
  returns the \<open>X\<close> and \<open>y\<close> rows at \<open>batch_size\<close> distinct indices of the held range; and
  any number of calls in a row returns that many batches: \<open>next\<close> raises nothing, in
  particular no \<open>StopIteration\<close>.
\<close>

theorem DataIter_batch_contract:
  assumes ok: "choice_ok choice" and lx: "length Xs = n" and ly: "length ys = n"
  shows "iter_batch_size (DataIter_init Xs ys (Some b) classes r) = min b n
       \<and> (\<forall>store. \<exists>sel g'.
             DataIter_next choice (DataIter_init Xs ys (Some b) classes r) store
               = Inr ((map ((!) Xs) sel, map ((!) ys) sel), store(r := g'))
             \<and> distinct sel \<and> length sel = min b n \<and> list_all (\<lambda>i. i < n) sel)
       \<and> (\<forall>store m. \<exists>bs store'.
             DataIter_take choice (DataIter_init Xs ys (Some b) classes r) store m = Inr (bs, store')
             \<and> length bs = m)"
proof -
  let ?it = "DataIter_init Xs ys (Some b) classes r"
  have inv: "DataIter_inv ?it" by (rule DataIter_init_inv)
  have f: "iter_X ?it = Xs" "iter_y ?it = ys" "iter_rng ?it = r" "iter_batch_size ?it = min b n"
    using ly by (simp_all add: DataIter_init_def)
  have len: "length (iter_X ?it) = length (iter_y ?it)" using lx ly f by simp
  have one: "\<exists>sel g'. DataIter_next choice ?it store
               = Inr ((map ((!) Xs) sel, map ((!) ys) sel), store(r := g'))
             \<and> distinct sel \<and> length sel = min b n \<and> list_all (\<lambda>i. i < n) sel" for store
    using DataIter_next_ok [OF ok inv len, of store] unfolding f ly .
  have many: "\<exists>bs store'. DataIter_take choice ?it store m = Inr (bs, store') \<and> length bs = m"
    for store m
    using ok inv len by (rule DataIter_take_ok)
  from f(4) one many show ?thesis by blast
qed

theorem DataIter_batch_contract_witness:
  "iter_batch_size (DataIter_init [10, 20, 30 :: int] [0, 1, 0 :: int] (Some 5) 2 (Supplied 0)) = 3
   \<and> (\<exists>sel g'. DataIter_next toy_choice
          (DataIter_init [10, 20, 30 :: int] [0, 1, 0 :: int] (Some 5) 2 (Supplied 0)) (\<lambda>_. 0)
          = Inr ((map ((!) [10, 20, 30]) sel, map ((!) [0, 1, 0]) sel), (\<lambda>_. 0)(Supplied 0 := g'))
        \<and> distinct sel \<and> length sel = 3)
   \<and> (\<exists>bs store'. DataIter_take toy_choice
          (DataIter_init [10, 20, 30 :: int] [0, 1, 0 :: int] (Some 5) 2 (Supplied 0)) (\<lambda>_. 0) 4
          = Inr (bs, store') \<and> length bs = 4)"
proof -
  have lx: "length [10, 20, 30 :: int] = 3" and ly: "length [0, 1, 0 :: int] = 3" by simp_all
  from DataIter_batch_contract [OF toy_choice_ok lx ly, of 5 2 "Supplied 0"]
  show ?thesis by simp blast
qed

text \<open>
  C10: the invariant \<open>batch_size \<le> len(y)\<close> and \<open>idx = arange(len(y))\<close> holds after
  construction and after every \<open>map\<close> and every \<open>filter\<close> call that returns; hence after
  any sequence of such calls the draw \<open>rng.choice(idx, batch_size, replace=False)\<close> of
  \<open>__next__\<close> is well defined: it asks for no more indices than are held and returns
  \<open>batch_size\<close> distinct indices of the held range.
\<close>

theorem DataIter_invariant_preserved:
  "DataIter_inv (DataIter_init Xs ys b classes r)
   \<and> (DataIter_inv self \<and> DataIter_map f self = Inr self' \<longrightarrow> DataIter_inv self')
   \<and> (DataIter_inv self \<and> DataIter_filter p self = Inr self'' \<longrightarrow> DataIter_inv self'')
   \<and> (choice_ok choice \<and> DataIter_calls cs (DataIter_init Xs ys b classes r) = Inr it \<longrightarrow>
        DataIter_inv it \<and>
        (\<forall>g. \<exists>sel g'. rng_choice choice g (iter_idx it) (iter_batch_size it) = Inr (sel, g')
                \<and> distinct sel \<and> length sel = iter_batch_size it
                \<and> list_all (\<lambda>i. i < length (iter_y it)) sel))"
proof -
  have draw: "\<exists>sel g'. rng_choice choice g (iter_idx it) (iter_batch_size it) = Inr (sel, g')
                \<and> distinct sel \<and> length sel = iter_batch_size it
                \<and> list_all (\<lambda>i. i < length (iter_y it)) sel"
    if ok: "choice_ok choice" and inv: "DataIter_inv it" for g
  proof -
    let ?m = "length (iter_y it)"
    let ?n = "iter_batch_size it"
    from inv have n: "?n \<le> ?m" and ix: "iter_idx it = [0..<?m]" by (simp_all add: DataIter_inv_def)
    obtain sel g' where c: "choice g [0..<?m] ?n = (sel, g')" by (cases "choice g [0..<?m] ?n")
    from choice_from_range [OF ok n, of g] c
    have "distinct sel" "length sel = ?n" "list_all (\<lambda>i. i < ?m) sel" by simp_all
    moreover have "rng_choice choice g (iter_idx it) ?n = Inr (sel, g')"
      using n ix c by (simp add: rng_choice_def)
    ultimately show ?thesis by blast
  qed
  have calls: "DataIter_inv it" if "DataIter_calls cs (DataIter_init Xs ys b classes r) = Inr it"
    using DataIter_init_inv that by (rule DataIter_calls_inv)
  show ?thesis
    using DataIter_init_inv [of Xs ys b classes r] DataIter_map_inv [of f self self']
      DataIter_filter_inv [of p self self''] calls draw by blast
qed


theorem DataIter_invariant_preserved_witness:
  "DataIter_calls
      [FilterCall (\<lambda>ys. Inr (Mask (map (\<lambda>l. l = 0) ys))), MapCall (\<lambda>Xs ys. Inr (take 1 Xs, take 1 ys))]
      (DataIter_init [10, 20, 30, 40 :: int] [0, 1, 0, 1 :: int] (Some 3) 2 (Supplied 0))
     = Inr \<lparr>iter_X = [10], iter_y = [0], iter_batch_size = 1, iter_idx = [0], iter_classes = 2,
            iter_rng = Supplied 0\<rparr>
   \<and> DataIter_inv \<lparr>iter_X = [10 :: int], iter_y = [0 :: int], iter_batch_size = 1, iter_idx = [0],
            iter_classes = 2, iter_rng = Supplied 0\<rparr>
   \<and> (\<exists>sel g'. rng_choice toy_choice (7 :: nat) [0] 1 = Inr (sel, g') \<and> distinct sel \<and> length sel = 1)"
proof -
  let ?cs = "[FilterCall (\<lambda>ys. Inr (Mask (map (\<lambda>l. l = 0) ys))),
              MapCall (\<lambda>Xs ys. Inr (take 1 Xs, take 1 ys))] :: (int, int) iter_call list"
  let ?it = "\<lparr>iter_X = [10 :: int], iter_y = [0 :: int], iter_batch_size = 1, iter_idx = [0],
            iter_classes = 2, iter_rng = Supplied 0\<rparr>"
  have ev: "DataIter_calls ?cs
      (DataIter_init [10, 20, 30, 40 :: int] [0, 1, 0, 1 :: int] (Some 3) 2 (Supplied 0)) = Inr ?it"
    by (simp add: DataIter_init_def DataIter_filter_def DataIter_map_def)
  from DataIter_invariant_preserved [of "[10, 20, 30, 40]" "[0, 1, 0, 1]" "Some 3" 2 "Supplied 0"
      _ _ _ _ _ toy_choice ?cs ?it] ev toy_choice_ok
  have "DataIter_inv ?it \<and>
        (\<forall>g. \<exists>sel g'. rng_choice toy_choice g (iter_idx ?it) (iter_batch_size ?it) = Inr (sel, g')
                \<and> distinct sel \<and> length sel = iter_batch_size ?it
                \<and> list_all (\<lambda>i. i < length (iter_y ?it)) sel)"
    by blast
  then have "DataIter_inv ?it"
    and "\<exists>sel g'. rng_choice toy_choice (7 :: nat) [0] 1 = Inr (sel, g') \<and> distinct sel \<and> length sel = 1"
    by (simp_all, metis)
  then show ?thesis using ev by blast
qed

section \<open>Randomized operations\<close>

text \<open>
  \<^verbatim>\<open>
  def uniform(weights, low=0.0, high=1.0, rng=np.random.default_rng()):
      return [rng.uniform(low=low, high=high, size=x.shape).astype(x.dtype) for x in weights]

  def add_normal(weights, loc=0.0, scale=1.0, rng=np.random.default_rng()):
      return [x + rng.normal(loc=loc, scale=scale, size=x.shape).astype(x.dtype)
              for x in weights]
  \<close>
  The generator's scalar draw is the parameter \<open>draw\<close>; an array of a given shape takes as
  many draws as it has elements. A call that leaves out \<open>rng\<close> (\<open>None\<close> here) uses the
  function's own default generator. Each function returns its result and the store in
  which the generator it used has advanced.
\<close>

fun draw_many :: "('g \<Rightarrow> 'p \<Rightarrow> 'p \<Rightarrow> 'a \<times> 'g) \<Rightarrow> 'g \<Rightarrow> 'p \<Rightarrow> 'p \<Rightarrow> nat \<Rightarrow> 'a list \<times> 'g" where
  "draw_many draw g p q 0 = ([], g)"
| "draw_many draw g p q (Suc n) =
     (case draw g p q of (v, g') \<Rightarrow>
        (case draw_many draw g' p q n of (vs, g'') \<Rightarrow> (v # vs, g'')))"

fun uniform_loop ::
  "('g \<Rightarrow> 'a \<Rightarrow> 'a \<Rightarrow> 'a \<times> 'g) \<Rightarrow> 'g \<Rightarrow> 'a tensor list \<Rightarrow> 'a \<Rightarrow> 'a \<Rightarrow> 'a tensor list \<times> 'g"
where
  "uniform_loop draw g [] low high = ([], g)"
| "uniform_loop draw g (x # weights) low high =
     (case draw_many draw g low high (np_size x) of (vals, g') \<Rightarrow>
        (case uniform_loop draw g' weights low high of (ts, g'') \<Rightarrow>
           (Tensor (shape x) vals # ts, g'')))"

definition uniform ::
  "('g \<Rightarrow> 'a \<Rightarrow> 'a \<Rightarrow> 'a \<times> 'g) \<Rightarrow> 'g rng_store \<Rightarrow> 'a tensor list \<Rightarrow> 'a \<Rightarrow> 'a \<Rightarrow> rng_ref option \<Rightarrow>
   'a tensor list \<times> 'g rng_store"
where
  "uniform draw store weights low high rng =
     (let r = (case rng of None \<Rightarrow> DefaultUniform | Some r \<Rightarrow> r)
      in case uniform_loop draw (store r) weights low high of
           (ts, g') \<Rightarrow> (ts, store(r := g')))"

fun add_normal_loop ::
  "('g \<Rightarrow> 'a \<Rightarrow> 'a \<Rightarrow> 'a \<times> 'g) \<Rightarrow> 'g \<Rightarrow> 'a::plus tensor list \<Rightarrow> 'a \<Rightarrow> 'a \<Rightarrow> 'a tensor list \<times> 'g"
where
  "add_normal_loop draw g [] loc scl = ([], g)"
| "add_normal_loop draw g (x # weights) loc scl =
     (case draw_many draw g loc scl (np_size x) of (noise, g') \<Rightarrow>
        (case add_normal_loop draw g' weights loc scl of (ts, g'') \<Rightarrow>
           (Tensor (shape x) (map2 (+) (elems x) noise) # ts, g'')))"

definition add_normal ::
  "('g \<Rightarrow> 'a \<Rightarrow> 'a \<Rightarrow> 'a \<times> 'g) \<Rightarrow> 'g rng_store \<Rightarrow> 'a::plus tensor list \<Rightarrow> 'a \<Rightarrow> 'a \<Rightarrow>
   rng_ref option \<Rightarrow> 'a tensor list \<times> 'g rng_store"
where
  "add_normal draw store weights loc scl rng =
     (let r = (case rng of None \<Rightarrow> DefaultAddNormal | Some r \<Rightarrow> r)
      in case add_normal_loop draw (store r) weights loc scl of
           (ts, g') \<Rightarrow> (ts, store(r := g')))"

section \<open>Dataset\<close>

text \<open>
  \<^verbatim>\<open>
  class Dataset:
      def __init__(self, X, y, train):
          self.X, self.y, self.train_idx = X, y, train
          self.classes = np.unique(self.y).shape[0]
          self.input_shape = X.shape[1:]
      def train(self):
          return self.X[self.train_idx], self.y[self.train_idx]
      def test(self):
          return self.X[~self.train_idx], self.y[~self.train_idx]
  \<close>
  \<open>input_shape\<close>, the shape of one sample, plays no part in the methods modelled and is left
  out.
\<close>

record ('x, 'y) Dataset =
  ds_X :: "'x list"
  ds_y :: "'y list"
  ds_train_idx :: "bool list"
  ds_classes :: nat

definition Dataset_init :: "'x list \<Rightarrow> 'y list \<Rightarrow> bool list \<Rightarrow> ('x, 'y) Dataset" where
  "Dataset_init X y train =
     \<lparr>ds_X = X, ds_y = y, ds_train_idx = train, ds_classes = length (remdups y)\<rparr>"

definition index_both :: "'x list \<Rightarrow> 'y list \<Rightarrow> indexer \<Rightarrow> py_error + ('x list \<times> 'y list)" where
  "index_both X y ix =
     (case np_index X ix of
        Inl err \<Rightarrow> Inl err
      | Inr X' \<Rightarrow> (case np_index y ix of Inl err \<Rightarrow> Inl err | Inr y' \<Rightarrow> Inr (X', y')))"

definition train :: "('x, 'y) Dataset \<Rightarrow> py_error + ('x list \<times> 'y list)" where
  "train self = index_both (ds_X self) (ds_y self) (Mask (ds_train_idx self))"

definition test :: "('x, 'y) Dataset \<Rightarrow> py_error + ('x list \<times> 'y list)" where
  "test self = index_both (ds_X self) (ds_y self) (Mask (map Not (ds_train_idx self)))"

text \<open>
  \<^verbatim>\<open>
      def get_iter(self, split, batch_size=None, idx=None, filter=None, map=None,
                   rng=np.random.default_rng()) -> DataIter:
          X, y = self.train() if split == 'train' else self.test()
          X, y = X.copy(), y.copy()
          if idx is not None:
              X, y = X[idx], y[idx]
          if filter is not None:
              fidx = filter(y)
              X, y = X[fidx], y[fidx]
          if map is not None:
              X, y = map(X, y)
          return DataIter(X, y, batch_size, self.classes, rng)
  \<close>
\<close>

definition get_iter ::
  "('x, 'y) Dataset \<Rightarrow> string \<Rightarrow> nat option \<Rightarrow> indexer option \<Rightarrow>
   ('y list \<Rightarrow> py_error + indexer) option \<Rightarrow>
   ('x list \<Rightarrow> 'y list \<Rightarrow> py_error + ('x list \<times> 'y list)) option \<Rightarrow> rng_ref option \<Rightarrow>
   py_error + ('x, 'y) DataIter"
where
  "get_iter self split batch_size idx filter_f map_f rng =
     (case (if split = ''train'' then train self else test self) of
        Inl err \<Rightarrow> Inl err
      | Inr (X0, y0) \<Rightarrow>
     (case (case idx of None \<Rightarrow> Inr (X0, y0) | Some ix \<Rightarrow> index_both X0 y0 ix) of
        Inl err \<Rightarrow> Inl err
      | Inr (X1, y1) \<Rightarrow>
     (case (case filter_f of
              None \<Rightarrow> Inr (X1, y1)
            | Some f \<Rightarrow> (case f y1 of Inl err \<Rightarrow> Inl err | Inr fidx \<Rightarrow> index_both X1 y1 fidx)) of
        Inl err \<Rightarrow> Inl err
      | Inr (X2, y2) \<Rightarrow>
     (case (case map_f of None \<Rightarrow> Inr (X2, y2) | Some f \<Rightarrow> f X2 y2) of
        Inl err \<Rightarrow> Inl err
      | Inr (X3, y3) \<Rightarrow>
          Inr (DataIter_init X3 y3 batch_size (ds_classes self)
                 (case rng of None \<Rightarrow> DefaultGetIter | Some r \<Rightarrow> r))))))"

text \<open>
  \<^verbatim>\<open>
      def fed_split(self, batch_sizes, mapping=None, rng=np.random.default_rng()):
          if mapping is not None:
              distribution = mapping(*self.train(), len(batch_sizes), self.classes, rng)
              return [self.get_iter("train", b, idx=d, rng=rng)
                      for b, d in zip(batch_sizes, distribution)]
          return [self.get_iter("train", b, rng=rng) for b in batch_sizes]
  \<close>
  \<open>get_iters\<close> is the list comprehension. The mapping draws from the generator it is
  handed: it maps that generator's state to the distribution and the state after.
\<close>

fun get_iters ::
  "('x, 'y) Dataset \<Rightarrow> (nat option \<times> indexer option) list \<Rightarrow> rng_ref \<Rightarrow>
   py_error + ('x, 'y) DataIter list"
where
  "get_iters self [] r = Inr []"
| "get_iters self ((b, d) # rest) r =
     (case get_iter self ''train'' b d None None (Some r) of
        Inl err \<Rightarrow> Inl err
      | Inr it \<Rightarrow>
          (case get_iters self rest r of Inl err \<Rightarrow> Inl err | Inr its \<Rightarrow> Inr (it # its)))"

definition fed_split ::
  "('x, 'y) Dataset \<Rightarrow> 'g rng_store \<Rightarrow> nat option list \<Rightarrow>
   ('x list \<Rightarrow> 'y list \<Rightarrow> nat \<Rightarrow> nat \<Rightarrow> 'g \<Rightarrow> py_error + (indexer list \<times> 'g)) option \<Rightarrow>
   rng_ref option \<Rightarrow> (py_error + ('x, 'y) DataIter list) \<times> 'g rng_store"
where
  "fed_split self store batch_sizes mapping rng =
     (let r = (case rng of None \<Rightarrow> DefaultFedSplit | Some r \<Rightarrow> r) in
      case mapping of
        None \<Rightarrow> (get_iters self (map (\<lambda>b. (b, None)) batch_sizes) r, store)
      | Some m \<Rightarrow>
          (case train self of
             Inl err \<Rightarrow> (Inl err, store)
           | Inr (X, y) \<Rightarrow>
               (case m X y (length batch_sizes) (ds_classes self) (store r) of
                  Inl err \<Rightarrow> (Inl err, store)
                | Inr (distribution, g') \<Rightarrow>
                    (get_iters self (zip batch_sizes (map Some distribution)) r,
                     store(r := g')))))"

text \<open>A deterministic stand-in for a scalar draw, and a small dataset, for the examples.\<close>

definition toy_draw :: "nat \<Rightarrow> real \<Rightarrow> real \<Rightarrow> real \<times> nat" where
  "toy_draw g low high = (low + (high - low) / real (g + 2), Suc g)"



definition ex_ds :: "(int, int) Dataset" where
  "ex_ds = Dataset_init [10, 20, 30] [0, 1, 0] [True, True, False]"

subsection \<open>Where the randomness comes from\<close>

lemma get_iters_rng:
  "get_iters self bds r = Inr its \<Longrightarrow> list_all (\<lambda>it. iter_rng it = r) its"
proof (induction bds arbitrary: its)
  case Nil
  then show ?case by simp
next
  case (Cons bd bds)
  obtain b d where bd: "bd = (b, d)" by (cases bd)
  from Cons.prems obtain it rest where it: "get_iter self ''train'' b d None None (Some r) = Inr it"
    and rest: "get_iters self bds r = Inr rest" and its: "its = it # rest"
    by (auto simp: bd split: sum.splits)
  from it have "iter_rng it = r"
    by (auto simp: get_iter_def DataIter_init_def split: sum.splits option.splits prod.splits if_splits)
  then show ?case using Cons.IH [OF rest] its by simp
qed

text \<open>
  C8, as stated, fails. A call that leaves out \<open>rng\<close> draws from the function's default
  generator, which no caller supplied or seeded: two runs that agree on every input and on
  every supplied generator, and differ only in that default generator's state, give
  different outputs; and two such calls in one run share it, the second continuing where
  the first stopped. \<open>get_iter\<close> hands its default generator to the iterator, and every
  iterator \<open>fed_split\<close> returns holds one and the same generator.
\<close>

theorem default_generator_is_ambient:
  "fst (uniform toy_draw (\<lambda>_. 0) [Tensor [2] [0, 0]] 0 1 None)
     \<noteq> fst (uniform toy_draw ((\<lambda>_. 0)(DefaultUniform := 5)) [Tensor [2] [0, 0]] 0 1 None)
   \<and> fst (uniform toy_draw (snd (uniform toy_draw (\<lambda>_. 0) [Tensor [2] [0, 0]] 0 1 None))
            [Tensor [2] [0, 0]] 0 1 None)
     \<noteq> fst (uniform toy_draw (\<lambda>_. 0) [Tensor [2] [0, 0]] 0 1 None)
   \<and> fst (add_normal toy_draw (\<lambda>_. 0) [Tensor [2] [10, 20]] 0 1 None)
     \<noteq> fst (add_normal toy_draw ((\<lambda>_. 0)(DefaultAddNormal := 5)) [Tensor [2] [10, 20]] 0 1 None)
   \<and> map_sum id iter_rng (get_iter ex_ds ''train'' None None None None None) = Inr DefaultGetIter
   \<and> map_sum id (map iter_rng) (fst (fed_split ex_ds (\<lambda>_. 0 :: nat) [Some 1, Some 5] None None))
       = Inr [DefaultFedSplit, DefaultFedSplit]
   \<and> map_sum id (map iter_rng)
        (fst (fed_split ex_ds (\<lambda>_. 0 :: nat) [Some 1, Some 5] None (Some (Supplied 0))))
       = Inr [Supplied 0, Supplied 0]"
  by (simp add: uniform_def add_normal_def toy_draw_def np_size_def eval_nat_numeral
      fed_split_def get_iter_def ex_ds_def Dataset_init_def train_def index_both_def
      DataIter_init_def Let_def)

text \<open>
  C8 (amended): when the caller supplies the generator, each of \<open>uniform\<close>, \<open>add_normal\<close> and
  \<open>fed_split\<close> draws from that generator only: its output and the generator's state
  afterwards are determined by the inputs and the generator's state before, and no other
  generator's state changes; so two runs with equal inputs and equally seeded supplied
  generators produce identical outputs. \<open>get_iter\<close> draws nothing and hands the supplied
  generator to the iterator; all the iterators \<open>fed_split\<close> returns hold the supplied
  generator, which they share. Called without a generator, each operation uses its own
  default generator, created when the function is defined.
\<close>

theorem supplied_generator_is_only_source:
  fixes w :: "'a::plus tensor list"
  shows
  "(s1 r = s2 r \<longrightarrow>
      fst (uniform draw s1 w lo hi (Some r)) = fst (uniform draw s2 w lo hi (Some r))
    \<and> snd (uniform draw s1 w lo hi (Some r)) r = snd (uniform draw s2 w lo hi (Some r)) r
    \<and> fst (add_normal draw s1 w lo hi (Some r)) = fst (add_normal draw s2 w lo hi (Some r))
    \<and> snd (add_normal draw s1 w lo hi (Some r)) r = snd (add_normal draw s2 w lo hi (Some r)) r
    \<and> fst (fed_split ds s1 bs m (Some r)) = fst (fed_split ds s2 bs m (Some r))
    \<and> snd (fed_split ds s1 bs m (Some r)) r = snd (fed_split ds s2 bs m (Some r)) r)
   \<and> (q \<noteq> r \<longrightarrow>
        snd (uniform draw s1 w lo hi (Some r)) q = s1 q
      \<and> snd (add_normal draw s1 w lo hi (Some r)) q = s1 q
      \<and> snd (fed_split ds s1 bs m (Some r)) q = s1 q)
   \<and> (get_iter ds split b ix flt mp (Some r) = Inr it \<longrightarrow> iter_rng it = r)
   \<and> (fst (fed_split ds s1 bs m (Some r)) = Inr its \<longrightarrow> list_all (\<lambda>it. iter_rng it = r) its)"
proof -
  have u: "fst (uniform draw s1 w lo hi (Some r)) = fst (uniform draw s2 w lo hi (Some r))
         \<and> snd (uniform draw s1 w lo hi (Some r)) r = snd (uniform draw s2 w lo hi (Some r)) r"
    if "s1 r = s2 r"
    using that by (simp add: uniform_def split: prod.splits)
  have a: "fst (add_normal draw s1 w lo hi (Some r)) = fst (add_normal draw s2 w lo hi (Some r))
         \<and> snd (add_normal draw s1 w lo hi (Some r)) r = snd (add_normal draw s2 w lo hi (Some r)) r"
    if "s1 r = s2 r"
    using that by (simp add: add_normal_def split: prod.splits)
  have f: "fst (fed_split ds s1 bs m (Some r)) = fst (fed_split ds s2 bs m (Some r))
         \<and> snd (fed_split ds s1 bs m (Some r)) r = snd (fed_split ds s2 bs m (Some r)) r"
    if "s1 r = s2 r"
    using that by (simp add: fed_split_def split: option.splits sum.splits prod.splits)
  have frame: "snd (uniform draw s1 w lo hi (Some r)) q = s1 q
      \<and> snd (add_normal draw s1 w lo hi (Some r)) q = s1 q
      \<and> snd (fed_split ds s1 bs m (Some r)) q = s1 q"
    if "q \<noteq> r"
    using that
    by (simp add: uniform_def add_normal_def fed_split_def
        split: option.splits sum.splits prod.splits)
  have g: "iter_rng it = r" if "get_iter ds split b ix flt mp (Some r) = Inr it"
    using that
    by (auto simp: get_iter_def DataIter_init_def split: sum.splits option.splits prod.splits if_splits)
  have fs: "list_all (\<lambda>it. iter_rng it = r) its" if "fst (fed_split ds s1 bs m (Some r)) = Inr its"
    using that
    by (auto simp: fed_split_def split: option.splits sum.splits prod.splits dest: get_iters_rng)
  from u a f frame g fs show ?thesis by blast
qed


theorem supplied_generator_is_only_source_witness:
  "(\<lambda>_. 0 :: nat) (Supplied 0) = ((\<lambda>_. 0)(DefaultUniform := 5)) (Supplied 0)
   \<and> fst (uniform toy_draw (\<lambda>_. 0) [Tensor [2] [0, 0]] 0 1 (Some (Supplied 0)))
       = fst (uniform toy_draw ((\<lambda>_. 0)(DefaultUniform := 5)) [Tensor [2] [0, 0]] 0 1
               (Some (Supplied 0)))
   \<and> fst (uniform toy_draw (\<lambda>_. 0) [Tensor [2] [0, 0]] 0 1 (Some (Supplied 0)))
       = [Tensor [2] [1 / 2, 1 / 3]]
   \<and> snd (uniform toy_draw (\<lambda>_. 0) [Tensor [2] [0, 0]] 0 1 (Some (Supplied 0))) DefaultUniform = 0"
proof -
  let ?s1 = "\<lambda>_ :: rng_ref. 0 :: nat"
  let ?s2 = "(\<lambda>_. 0 :: nat)(DefaultUniform := 5)"
  have eq: "?s1 (Supplied 0) = ?s2 (Supplied 0)" by simp
  have ne: "DefaultUniform \<noteq> Supplied 0" by simp
  have ev: "fst (uniform toy_draw ?s1 [Tensor [2] [0, 0]] 0 1 (Some (Supplied 0)))
              = [Tensor [2] [1 / 2, 1 / 3]]"
    by (simp add: uniform_def toy_draw_def np_size_def eval_nat_numeral)
  from supplied_generator_is_only_source [of ?s1 "Supplied 0" ?s2 toy_draw "[Tensor [2] [0, 0]]" 0 1
      _ _ _ DefaultUniform] eq ne
  have "fst (uniform toy_draw ?s1 [Tensor [2] [0, 0]] 0 1 (Some (Supplied 0)))
          = fst (uniform toy_draw ?s2 [Tensor [2] [0, 0]] 0 1 (Some (Supplied 0)))"
    and "snd (uniform toy_draw ?s1 [Tensor [2] [0, 0]] 0 1 (Some (Supplied 0))) DefaultUniform
          = ?s1 DefaultUniform"
    by blast+
  then show ?thesis using ev eq by simp
qed

section \<open>The remaining tree operations\<close>

text \<open>
  \<^verbatim>\<open>
  def scale(weights, scale):
      return [x * scale for x in weights]
  def minimum(weights, val):
      return [np.minimum(x, val) for x in weights]
  def maximum(weights, val):
      return [np.maximum(x, val) for x in weights]
  def counter(weights):
      return [(w != 0).astype(w.dtype) for w in weights]
  \<close>
  \<open>scale\<close> and \<open>val\<close> are scalars.
\<close>

definition scale :: "'a::times tensor list \<Rightarrow> 'a \<Rightarrow> 'a tensor list" where
  "scale weights s = map (\<lambda>x. Tensor (shape x) (map (\<lambda>v. v * s) (elems x))) weights"

definition minimum :: "'a::ord tensor list \<Rightarrow> 'a \<Rightarrow> 'a tensor list" where
  "minimum weights val = map (\<lambda>x. Tensor (shape x) (map (\<lambda>v. min v val) (elems x))) weights"

definition maximum :: "'a::ord tensor list \<Rightarrow> 'a \<Rightarrow> 'a tensor list" where
  "maximum weights val = map (\<lambda>x. Tensor (shape x) (map (\<lambda>v. max v val) (elems x))) weights"

definition counter :: "'a::{zero,one} tensor list \<Rightarrow> 'a tensor list" where
  "counter weights =
     map (\<lambda>w. Tensor (shape w) (map (\<lambda>v. if v \<noteq> 0 then 1 else 0) (elems w))) weights"

text \<open>
  \<^verbatim>\<open>
  def add(*weights):
      return [sum(xs) for xs in zip(*weights)]
  \<close>
  \<open>zip(*weights)\<close> yields, for each position below the length of the shortest tree, the
  tensors of all trees at that position, and nothing when no tree is given. \<open>sum\<close> starts
  from the number 0 and adds the tensors one by one with numpy's broadcasting \<open>+\<close>; the
  number 0 behaves as an array without axes.
\<close>

definition zip_star :: "'a list list \<Rightarrow> 'a list list" where
  "zip_star ts =
     (case ts of
        [] \<Rightarrow> []
      | t # rest \<Rightarrow> map (\<lambda>i. map (\<lambda>u. u ! i) ts) [0..<fold min (map length rest) (length t)])"

fun py_sum :: "'a::{zero,plus} tensor \<Rightarrow> 'a tensor list \<Rightarrow> py_error + 'a tensor" where
  "py_sum acc [] = Inr acc"
| "py_sum acc (x # xs) =
     (case np_binop (+) acc x of Inl err \<Rightarrow> Inl err | Inr acc' \<Rightarrow> py_sum acc' xs)"

fun collect :: "(py_error + 'a) list \<Rightarrow> py_error + 'a list" where
  "collect [] = Inr []"
| "collect (r # rs) =
     (case r of
        Inl err \<Rightarrow> Inl err
      | Inr v \<Rightarrow> (case collect rs of Inl err \<Rightarrow> Inl err | Inr vs \<Rightarrow> Inr (v # vs)))"

definition add :: "'a::{zero,plus} tensor list list \<Rightarrow> py_error + 'a tensor list" where
  "add weights = collect (map (py_sum (Tensor [] [0])) (zip_star weights))"


section \<open>Objects: which operations build and which mutate\<close>

text \<open>
  Python lists and numpy arrays are objects with an identity. The heap is the sequence of
  all objects created so far; an object's address is its position, so creating an object
  appends it. A tree is a list object holding the addresses of its arrays.

  A numpy array is two things. Its buffer holds the numbers. The array object names the
  buffer it reads, its shape, and where in the buffer each of its elements lies, in the
  row-major order of its own indices (numpy keeps this as an offset and strides). Two
  array objects that name the same buffer share their elements: a write through one is
  seen through the other.
\<close>

datatype 'a obj = Buf "'a list" | Arr nat "nat list" "nat list" | Lst "nat list"

type_synonym 'a heap = "'a obj list"

definition alloc :: "'a heap \<Rightarrow> 'a obj \<Rightarrow> nat \<times> 'a heap" where
  "alloc h ob = (length h, h @ [ob])"

text \<open>
  Reading the heap: the buffer, the array object (buffer address, shape, positions), the
  array's value, the list or the whole tree at an address, when the object there is of
  that kind. The flat vector that \<open>unravel\<close> takes and \<open>ravel\<close> returns is a
  one-dimensional array.
\<close>

definition buffer_at :: "'a heap \<Rightarrow> nat \<Rightarrow> 'a list option" where
  "buffer_at h b =
     (if b < length h then (case h ! b of Buf xs \<Rightarrow> Some xs | _ \<Rightarrow> None) else None)"

definition view_at :: "'a heap \<Rightarrow> nat \<Rightarrow> (nat \<times> nat list \<times> nat list) option" where
  "view_at h p =
     (if p < length h then (case h ! p of Arr b shp pos \<Rightarrow> Some (b, shp, pos) | _ \<Rightarrow> None)
      else None)"

definition array_at :: "'a heap \<Rightarrow> nat \<Rightarrow> 'a tensor option" where
  "array_at h p =
     (case view_at h p of
        None \<Rightarrow> None
      | Some (b, shp, pos) \<Rightarrow>
          (case buffer_at h b of
             None \<Rightarrow> None
           | Some xs \<Rightarrow>
               (if list_all (\<lambda>i. i < length xs) pos then Some (Tensor shp (map ((!) xs) pos))
                else None)))"

definition list_at :: "'a heap \<Rightarrow> nat \<Rightarrow> nat list option" where
  "list_at h a = (if a < length h then (case h ! a of Lst ps \<Rightarrow> Some ps | _ \<Rightarrow> None) else None)"

definition tree_at :: "'a heap \<Rightarrow> nat \<Rightarrow> 'a tensor list option" where
  "tree_at h a = (case list_at h a of None \<Rightarrow> None | Some ps \<Rightarrow> those (map (array_at h) ps))"

definition vector_at :: "'a heap \<Rightarrow> nat \<Rightarrow> 'a list option" where
  "vector_at h p =
     (case array_at h p of
        None \<Rightarrow> None
      | Some x \<Rightarrow> (if ndim x = 1 then Some (elems x) else None))"

definition buffer_of :: "'a heap \<Rightarrow> nat \<Rightarrow> nat option" where
  "buffer_of h p = (case view_at h p of None \<Rightarrow> None | Some (b, shp, pos) \<Rightarrow> Some b)"

definition tree_buffers :: "'a heap \<Rightarrow> nat \<Rightarrow> nat list" where
  "tree_buffers h a =
     (case list_at h a of None \<Rightarrow> [] | Some ps \<Rightarrow> List.map_filter (buffer_of h) ps)"

text \<open>
  What numpy allocates. An operator (\<open>a * b\<close>, \<open>x * scale\<close>, \<open>w != 0\<close>), \<open>np.minimum\<close>,
  \<open>np.maximum\<close>, \<open>astype\<close>, \<open>np.pad\<close>, \<open>np.zeros\<close>, \<open>np.concatenate\<close> and a generator's
  \<open>uniform\<close> and \<open>normal\<close> each return a new array that owns a new buffer: \<open>new_array\<close>,
  and \<open>np_result\<close> for a call that may raise instead. An address that does not hold an
  array stands for an argument of another type; the call is then a TypeError.
\<close>

definition new_array :: "'a heap \<Rightarrow> 'a tensor \<Rightarrow> nat \<times> 'a heap" where
  "new_array h t =
     (case alloc h (Buf (elems t)) of (b, h') \<Rightarrow>
        alloc h' (Arr b (shape t) [0..<length (elems t)]))"

definition np_result :: "'a heap \<Rightarrow> py_error + 'a tensor \<Rightarrow> (py_error + nat) \<times> 'a heap" where
  "np_result h res =
     (case res of
        Inl err \<Rightarrow> (Inl err, h)
      | Inr t \<Rightarrow> (case new_array h t of (p, h') \<Rightarrow> (Inr p, h')))"

definition np_binop_obj ::
  "('a \<Rightarrow> 'a \<Rightarrow> 'a) \<Rightarrow> 'a heap \<Rightarrow> nat \<times> nat \<Rightarrow> (py_error + nat) \<times> 'a heap"
where
  "np_binop_obj f h pq =
     (case (array_at h (fst pq), array_at h (snd pq)) of
        (Some a, Some b) \<Rightarrow> np_result h (np_binop f a b)
      | _ \<Rightarrow> (Inl TypeError, h))"

definition np_map_obj :: "('a \<Rightarrow> 'a) \<Rightarrow> 'a heap \<Rightarrow> nat \<Rightarrow> (py_error + nat) \<times> 'a heap" where
  "np_map_obj f h p =
     (case array_at h p of
        None \<Rightarrow> (Inl TypeError, h)
      | Some x \<Rightarrow> np_result h (Inr (Tensor (shape x) (map f (elems x)))))"

text \<open>
  Basic slicing does not copy. \<open>x[tuple(slice(i) for i in req)]\<close> on an array with at
  least one axis returns a view: a new array object on the buffer of \<open>x\<close>, whose
  positions are those of the kept elements of \<open>x\<close>. On an array without axes the index
  is the empty tuple and numpy returns the element as a scalar, which shares nothing
  with \<open>x\<close>. \<open>np.reshape(v[i:j], shape)\<close> on a one-dimensional array is a view as well:
  the slice is one, and a one-dimensional array is evenly spaced in its buffer, so
  reshaping it needs no copy.
\<close>

definition new_view :: "'a heap \<Rightarrow> nat \<Rightarrow> nat list \<Rightarrow> nat list \<Rightarrow> nat \<times> 'a heap" where
  "new_view h b shp pos = alloc h (Arr b shp pos)"

definition np_slices_obj :: "'a heap \<Rightarrow> nat \<Rightarrow> nat list \<Rightarrow> (py_error + nat) \<times> 'a heap" where
  "np_slices_obj h p req =
     (case view_at h p of
        None \<Rightarrow> (Inl TypeError, h)
      | Some (b, shp, pos) \<Rightarrow>
          (if length shp < length req then (Inl IndexError, h)
           else if shp = [] then
             (case array_at h p of None \<Rightarrow> (Inl TypeError, h) | Some x \<Rightarrow> np_result h (Inr x))
           else (case new_view h b (sliced_shape shp req) (slice_axes shp req pos) of
                   (q, h') \<Rightarrow> (Inr q, h'))))"

definition np_reshape_slice_obj ::
  "'a heap \<Rightarrow> nat \<Rightarrow> nat \<Rightarrow> nat \<Rightarrow> nat list \<Rightarrow> (py_error + nat) \<times> 'a heap"
where
  "np_reshape_slice_obj h p i j shp =
     (case view_at h p of
        None \<Rightarrow> (Inl TypeError, h)
      | Some (b, vshp, pos) \<Rightarrow>
          (if length vshp \<noteq> 1 then (Inl TypeError, h)
           else if length (slice pos i j) = prod_list shp then
             (case new_view h b shp (slice pos i j) of (q, h') \<Rightarrow> (Inr q, h'))
           else (Inl ValueError, h)))"

text \<open>
  A list comprehension \<open>[g(x) for x in xs]\<close> evaluates \<open>g\<close> on each item in turn, every
  evaluation working on the heap the previous one left, and stops at the first exception;
  \<open>new_list\<close> then creates the list object of the addresses computed.
  \<open>comprehension_with\<close> is the same loop with a value carried from one item to the next:
  the index \<open>i\<close> of \<open>unravel\<close>, the state of the generator. Objects that are no longer
  reachable when a call returns (the boolean array of \<open>w != 0\<close>, the tuples of \<open>zip\<close>, the
  pieces handed to \<open>np.concatenate\<close>) are left out of the heap.
\<close>

fun comprehension ::
  "('a heap \<Rightarrow> 'i \<Rightarrow> (py_error + nat) \<times> 'a heap) \<Rightarrow> 'a heap \<Rightarrow> 'i list \<Rightarrow>
   (py_error + nat list) \<times> 'a heap"
where
  "comprehension g h [] = (Inr [], h)"
| "comprehension g h (x # xs) =
     (case g h x of
        (Inl err, h1) \<Rightarrow> (Inl err, h1)
      | (Inr p, h1) \<Rightarrow>
          (case comprehension g h1 xs of
             (Inl err, h2) \<Rightarrow> (Inl err, h2)
           | (Inr ps, h2) \<Rightarrow> (Inr (p # ps), h2)))"

fun comprehension_with ::
  "('a heap \<Rightarrow> 's \<Rightarrow> 'i \<Rightarrow> ((py_error + nat) \<times> 'a heap) \<times> 's) \<Rightarrow> 'a heap \<Rightarrow> 's \<Rightarrow> 'i list \<Rightarrow>
   ((py_error + nat list) \<times> 'a heap) \<times> 's"
where
  "comprehension_with g h s [] = ((Inr [], h), s)"
| "comprehension_with g h s (x # xs) =
     (case g h s x of
        ((Inl err, h1), s1) \<Rightarrow> ((Inl err, h1), s1)
      | ((Inr p, h1), s1) \<Rightarrow>
          (case comprehension_with g h1 s1 xs of
             ((Inl err, h2), s2) \<Rightarrow> ((Inl err, h2), s2)
           | ((Inr ps, h2), s2) \<Rightarrow> ((Inr (p # ps), h2), s2)))"

definition new_list :: "(py_error + nat list) \<times> 'a heap \<Rightarrow> (py_error + nat) \<times> 'a heap" where
  "new_list r =
     (case r of
        (Inl err, h) \<Rightarrow> (Inl err, h)
      | (Inr ps, h) \<Rightarrow> (case alloc h (Lst ps) of (p, h') \<Rightarrow> (Inr p, h')))"

text \<open>
  The operations of \<open>weights.py\<close> on objects. \<open>sub\<close>, \<open>mul\<close> and \<open>div\<close> zip the two lists
  and apply the operator to each pair; \<open>scale\<close>, \<open>minimum\<close>, \<open>maximum\<close> and \<open>counter\<close>
  apply a scalar function to each array.
\<close>

definition sub_obj :: "'a::minus heap \<Rightarrow> nat \<Rightarrow> nat \<Rightarrow> (py_error + nat) \<times> 'a heap" where
  "sub_obj h weights_a weights_b =
     (case (list_at h weights_a, list_at h weights_b) of
        (Some ps, Some qs) \<Rightarrow> new_list (comprehension (np_binop_obj (-)) h (zip ps qs))
      | _ \<Rightarrow> (Inl TypeError, h))"

definition mul_obj :: "'a::times heap \<Rightarrow> nat \<Rightarrow> nat \<Rightarrow> (py_error + nat) \<times> 'a heap" where
  "mul_obj h weights_a weights_b =
     (case (list_at h weights_a, list_at h weights_b) of
        (Some ps, Some qs) \<Rightarrow> new_list (comprehension (np_binop_obj (*)) h (zip ps qs))
      | _ \<Rightarrow> (Inl TypeError, h))"

definition div_obj :: "'a::inverse heap \<Rightarrow> nat \<Rightarrow> nat \<Rightarrow> (py_error + nat) \<times> 'a heap" where
  "div_obj h weights_a weights_b =
     (case (list_at h weights_a, list_at h weights_b) of
        (Some ps, Some qs) \<Rightarrow> new_list (comprehension (np_binop_obj (/)) h (zip ps qs))
      | _ \<Rightarrow> (Inl TypeError, h))"

definition scale_obj :: "'a::times heap \<Rightarrow> nat \<Rightarrow> 'a \<Rightarrow> (py_error + nat) \<times> 'a heap" where
  "scale_obj h weights s =
     (case list_at h weights of
        None \<Rightarrow> (Inl TypeError, h)
      | Some ps \<Rightarrow> new_list (comprehension (np_map_obj (\<lambda>v. v * s)) h ps))"

definition minimum_obj :: "'a::ord heap \<Rightarrow> nat \<Rightarrow> 'a \<Rightarrow> (py_error + nat) \<times> 'a heap" where
  "minimum_obj h weights val =
     (case list_at h weights of
        None \<Rightarrow> (Inl TypeError, h)
      | Some ps \<Rightarrow> new_list (comprehension (np_map_obj (\<lambda>v. min v val)) h ps))"

definition maximum_obj :: "'a::ord heap \<Rightarrow> nat \<Rightarrow> 'a \<Rightarrow> (py_error + nat) \<times> 'a heap" where
  "maximum_obj h weights val =
     (case list_at h weights of
        None \<Rightarrow> (Inl TypeError, h)
      | Some ps \<Rightarrow> new_list (comprehension (np_map_obj (\<lambda>v. max v val)) h ps))"

definition counter_obj :: "'a::{zero,one} heap \<Rightarrow> nat \<Rightarrow> (py_error + nat) \<times> 'a heap" where
  "counter_obj h weights =
     (case list_at h weights of
        None \<Rightarrow> (Inl TypeError, h)
      | Some ps \<Rightarrow> new_list (comprehension (np_map_obj (\<lambda>v. if v \<noteq> 0 then 1 else 0)) h ps))"

text \<open>
  \<open>sum(xs)\<close> starts from the number 0, which is no array: the accumulator is \<open>None\<close> until
  the first addition \<open>0 + x\<close> has made an array, and every later addition makes another.
  \<open>zip(*weights)\<close> yields tuples with one array per tree, so \<open>sum\<close> is never called on an
  empty tuple; the first equation stands for the number 0 it would return.
\<close>

fun sum_obj :: "'a::{zero,plus} heap \<Rightarrow> nat option \<Rightarrow> nat list \<Rightarrow> (py_error + nat) \<times> 'a heap" where
  "sum_obj h acc [] =
     (case acc of None \<Rightarrow> np_result h (Inr (Tensor [] [0])) | Some p \<Rightarrow> (Inr p, h))"
| "sum_obj h acc (q # qs) =
     (case (case acc of
              None \<Rightarrow>
                (case array_at h q of
                   None \<Rightarrow> (Inl TypeError, h)
                 | Some x \<Rightarrow> np_result h (np_binop (+) (Tensor [] [0]) x))
            | Some p \<Rightarrow> np_binop_obj (+) h (p, q)) of
        (Inl err, h') \<Rightarrow> (Inl err, h')
      | (Inr p', h') \<Rightarrow> sum_obj h' (Some p') qs)"

definition add_obj :: "'a::{zero,plus} heap \<Rightarrow> nat list \<Rightarrow> (py_error + nat) \<times> 'a heap" where
  "add_obj h weights =
     (case those (map (list_at h) weights) of
        None \<Rightarrow> (Inl TypeError, h)
      | Some pss \<Rightarrow> new_list (comprehension (\<lambda>h' qs. sum_obj h' None qs) h (zip_star pss)))"

text \<open>
  \<open>uniform\<close> and \<open>add_normal\<close> carry the state of the generator they draw from through
  the comprehension and leave it, advanced, in the store.
\<close>

definition uniform_obj ::
  "('g \<Rightarrow> 'a \<Rightarrow> 'a \<Rightarrow> 'a \<times> 'g) \<Rightarrow> 'a heap \<Rightarrow> 'g rng_store \<Rightarrow> nat \<Rightarrow> 'a \<Rightarrow> 'a \<Rightarrow> rng_ref option \<Rightarrow>
   ((py_error + nat) \<times> 'a heap) \<times> 'g rng_store"
where
  "uniform_obj draw h store weights low high rng =
     (case list_at h weights of
        None \<Rightarrow> ((Inl TypeError, h), store)
      | Some ps \<Rightarrow>
          (let r = (case rng of None \<Rightarrow> DefaultUniform | Some r \<Rightarrow> r)
           in case comprehension_with
                 (\<lambda>h' g p.
                    case array_at h' p of
                      None \<Rightarrow> ((Inl TypeError, h'), g)
                    | Some x \<Rightarrow>
                        (case draw_many draw g low high (np_size x) of
                           (vals, g') \<Rightarrow> (np_result h' (Inr (Tensor (shape x) vals)), g')))
                 h (store r) ps of
                (res, g') \<Rightarrow> (new_list res, store(r := g'))))"

definition add_normal_obj ::
  "('g \<Rightarrow> 'a \<Rightarrow> 'a \<Rightarrow> 'a \<times> 'g) \<Rightarrow> 'a::plus heap \<Rightarrow> 'g rng_store \<Rightarrow> nat \<Rightarrow> 'a \<Rightarrow> 'a \<Rightarrow>
   rng_ref option \<Rightarrow> ((py_error + nat) \<times> 'a heap) \<times> 'g rng_store"
where
  "add_normal_obj draw h store weights loc scl rng =
     (case list_at h weights of
        None \<Rightarrow> ((Inl TypeError, h), store)
      | Some ps \<Rightarrow>
          (let r = (case rng of None \<Rightarrow> DefaultAddNormal | Some r \<Rightarrow> r)
           in case comprehension_with
                 (\<lambda>h' g p.
                    case array_at h' p of
                      None \<Rightarrow> ((Inl TypeError, h'), g)
                    | Some x \<Rightarrow>
                        (case draw_many draw g loc scl (np_size x) of
                           (noise, g') \<Rightarrow>
                             (np_result h' (Inr (Tensor (shape x) (map2 (+) (elems x) noise))), g')))
                 h (store r) ps of
                (res, g') \<Rightarrow> (new_list res, store(r := g'))))"

text \<open>
  \<open>ravel\<close> returns the one array that \<open>np.concatenate\<close> makes. \<open>unravel\<close> appends one
  reshaped slice of its argument per skeleton entry and advances \<open>i\<close>. \<open>partition\<close>
  slices, for each entry of \<open>skel_to\<close> whose name is in \<open>skel_from\<close>, the array that the
  list holds at the index recorded in \<open>skel_from\<close>.
\<close>

definition ravel_obj :: "'a heap \<Rightarrow> nat \<Rightarrow> (py_error + nat) \<times> 'a heap" where
  "ravel_obj h weights =
     (case tree_at h weights of
        None \<Rightarrow> (Inl TypeError, h)
      | Some ws \<Rightarrow>
          np_result h (case ravel ws of Inl err \<Rightarrow> Inl err | Inr v \<Rightarrow> Inr (Tensor [length v] v)))"

definition unravel_obj ::
  "'a heap \<Rightarrow> nat \<Rightarrow> (nat list \<times> nat) list \<Rightarrow> (py_error + nat) \<times> 'a heap"
where
  "unravel_obj h weights skel =
     new_list
       (fst (comprehension_with
               (\<lambda>h' i e. (np_reshape_slice_obj h' weights i (i + snd e) (fst e), i + snd e))
               h 0 skel))"

definition partition_obj ::
  "'a heap \<Rightarrow> nat \<Rightarrow> named_skeleton \<Rightarrow> named_skeleton \<Rightarrow> (py_error + nat) \<times> 'a heap"
where
  "partition_obj h weights skel_from skel_to =
     (case list_at h weights of
        None \<Rightarrow> (Inl TypeError, h)
      | Some ps \<Rightarrow>
          new_list
            (comprehension
               (\<lambda>h' kv. case getitem ps (index (the (map_of skel_from (fst kv)))) of
                           Inl err \<Rightarrow> (Inl err, h')
                         | Inr p \<Rightarrow> np_slices_obj h' p (eshape (snd kv)))
               h (filter (\<lambda>(k, v). map_of skel_from k \<noteq> None) skel_to)))"

text \<open>
  \<open>expand\<close> is different: \<open>weights[i] = ...\<close> and \<open>weights.insert(i, ...)\<close> change the list
  object the caller passed, and \<open>return weights\<close> returns that object. Each padded or zero
  array is new.
\<close>

fun expand_obj_loop ::
  "'a::zero heap \<Rightarrow> nat \<Rightarrow> named_skeleton \<Rightarrow> named_skeleton \<Rightarrow> (py_error + nat) \<times> 'a heap"
where
  "expand_obj_loop h weights skel_from [] = (Inr weights, h)"
| "expand_obj_loop h weights skel_from ((k, v) # skel_to) =
     (case list_at h weights of
        None \<Rightarrow> (Inl TypeError, h)
      | Some ps \<Rightarrow>
          (case map_of skel_from k of
             Some _ \<Rightarrow>
               (case getitem ps (index v) of
                  Inl err \<Rightarrow> (Inl err, h)
                | Inr p \<Rightarrow>
                    (case array_at h p of
                       None \<Rightarrow> (Inl TypeError, h)
                     | Some w \<Rightarrow>
                         (case np_pad w (map2 (\<lambda>b ws. int b - int ws) (eshape v) (shape w)) of
                            Inl err \<Rightarrow> (Inl err, h)
                          | Inr t \<Rightarrow>
                              (case new_array h t of (q, h') \<Rightarrow>
                                 expand_obj_loop (h'[weights := Lst (ps[index v := q])])
                                   weights skel_from skel_to))))
           | None \<Rightarrow>
               (case new_array h (np_zeros (eshape v)) of (q, h') \<Rightarrow>
                  expand_obj_loop (h'[weights := Lst (list_insert ps (index v) q)])
                    weights skel_from skel_to)))"

definition expand_obj ::
  "'a::zero heap \<Rightarrow> nat \<Rightarrow> named_skeleton \<Rightarrow> named_skeleton \<Rightarrow> (py_error + nat) \<times> 'a heap"
where
  "expand_obj h weights skel_from skel_to = expand_obj_loop h weights skel_from skel_to"

text \<open>
  What a call built. \<open>built Q h r res\<close> relates the outcome \<open>r\<close> of a call made on the
  heap \<open>h\<close> to the outcome \<open>res\<close> of the value-level operation: every object of \<open>h\<close> is
  where it was and as it was; the call raises exactly when \<open>res\<close> is an exception, and
  the same one; otherwise it returns a list object that did not exist in \<open>h\<close>, holding
  array objects that did not exist in \<open>h\<close>, whose values are the tensors of \<open>res\<close>, and
  \<open>Q\<close> holds of the buffer and shape of each of them. \<open>array_built\<close> is the same for a
  call that returns one array, \<open>arrays_built\<close> for the addresses a comprehension has
  computed on the heap \<open>h\<close> since a call began with \<open>n\<close> objects.

  Three things \<open>Q\<close> can say of an array's buffer: the call allocated it (\<open>owns\<close>); it is
  the buffer of the vector the call was given (\<open>views_vector\<close>); it is the buffer of an
  array of the tree the call was given, unless the array has no axes and is a copy
  (\<open>views_tree\<close>).
\<close>

definition array_built ::
  "(nat \<Rightarrow> nat list \<Rightarrow> bool) \<Rightarrow> 'a heap \<Rightarrow> (py_error + nat) \<times> 'a heap \<Rightarrow> py_error + 'a tensor \<Rightarrow> bool"
where
  "array_built Q h r res \<longleftrightarrow>
     prefix h (snd r) \<and>
     (case res of
        Inl err \<Rightarrow> fst r = Inl err
      | Inr t \<Rightarrow>
          (\<exists>p b shp pos. fst r = Inr p \<and> length h \<le> p \<and> view_at (snd r) p = Some (b, shp, pos)
             \<and> Q b shp \<and> array_at (snd r) p = Some t))"

definition new_arrays :: "(nat \<Rightarrow> nat list \<Rightarrow> bool) \<Rightarrow> nat \<Rightarrow> 'a heap \<Rightarrow> nat list \<Rightarrow> bool" where
  "new_arrays Q n h ps \<longleftrightarrow>
     list_all (\<lambda>q. n \<le> q \<and> (\<exists>b shp pos. view_at h q = Some (b, shp, pos) \<and> Q b shp)) ps"

definition arrays_built ::
  "(nat \<Rightarrow> nat list \<Rightarrow> bool) \<Rightarrow> nat \<Rightarrow> 'a heap \<Rightarrow> (py_error + nat list) \<times> 'a heap \<Rightarrow>
   py_error + 'a tensor list \<Rightarrow> bool"
where
  "arrays_built Q n h r res \<longleftrightarrow>
     prefix h (snd r) \<and>
     (case res of
        Inl err \<Rightarrow> fst r = Inl err
      | Inr ts \<Rightarrow>
          (\<exists>ps. fst r = Inr ps \<and> new_arrays Q n (snd r) ps
             \<and> map (array_at (snd r)) ps = map Some ts))"

definition built ::
  "(nat \<Rightarrow> nat list \<Rightarrow> bool) \<Rightarrow> 'a heap \<Rightarrow> (py_error + nat) \<times> 'a heap \<Rightarrow>
   py_error + 'a tensor list \<Rightarrow> bool"
where
  "built Q h r res \<longleftrightarrow>
     prefix h (snd r) \<and>
     (case res of
        Inl err \<Rightarrow> fst r = Inl err
      | Inr ts \<Rightarrow>
          (\<exists>p ps. fst r = Inr p \<and> length h \<le> p \<and> list_at (snd r) p = Some ps
             \<and> new_arrays Q (length h) (snd r) ps \<and> tree_at (snd r) p = Some ts))"

definition owns :: "'a heap \<Rightarrow> nat \<Rightarrow> nat list \<Rightarrow> bool" where
  "owns h b shp \<longleftrightarrow> length h \<le> b"

definition views_vector :: "'a heap \<Rightarrow> nat \<Rightarrow> nat \<Rightarrow> nat list \<Rightarrow> bool" where
  "views_vector h v b shp \<longleftrightarrow> buffer_of h v = Some b"

definition views_tree :: "'a heap \<Rightarrow> nat \<Rightarrow> nat \<Rightarrow> nat list \<Rightarrow> bool" where
  "views_tree h a b shp \<longleftrightarrow> (if shp = [] then length h \<le> b else b \<in> set (tree_buffers h a))"

text \<open>
  The value-level counterpart of \<open>comprehension_with\<close>: the results of \<open>G\<close> on the items
  in turn, with the carried value, up to the first exception.
\<close>

fun collect_with ::
  "('s \<Rightarrow> 'i \<Rightarrow> (py_error + 'v) \<times> 's) \<Rightarrow> 's \<Rightarrow> 'i list \<Rightarrow> (py_error + 'v list) \<times> 's"
where
  "collect_with G s [] = (Inr [], s)"
| "collect_with G s (x # xs) =
     (case G s x of
        (Inl err, s1) \<Rightarrow> (Inl err, s1)
      | (Inr v, s1) \<Rightarrow>
          (case collect_with G s1 xs of
             (Inl err, s2) \<Rightarrow> (Inl err, s2)
           | (Inr vs, s2) \<Rightarrow> (Inr (v # vs), s2)))"

subsection \<open>Reading an extended heap\<close>

lemma those_map_Some: "those (map Some xs) = Some xs"
  by (induction xs) simp_all

lemma those_eq_Some: "those xs = Some ys \<longleftrightarrow> xs = map Some ys"
proof (induction xs arbitrary: ys)
  case Nil
  then show ?case by auto
next
  case (Cons x xs)
  then show ?case by (cases x; cases ys) (auto split: option.splits)
qed

lemma tree_at_iff:
  "tree_at h a = Some ws \<longleftrightarrow> (\<exists>ps. list_at h a = Some ps \<and> map (array_at h) ps = map Some ws)"
  by (auto simp: tree_at_def those_eq_Some split: option.splits)

lemma prefix_nth: "prefix h h' \<Longrightarrow> p < length h \<Longrightarrow> h' ! p = h ! p"
  by (auto simp: prefix_def nth_append)

lemma prefix_length: "prefix h h' \<Longrightarrow> length h \<le> length h'"
  by (auto simp: prefix_def)

lemma buffer_at_mono: "buffer_at h b = Some xs \<Longrightarrow> prefix h h' \<Longrightarrow> buffer_at h' b = Some xs"
  using prefix_length [of h h'] prefix_nth [of h h' b]
  by (auto simp: buffer_at_def split: if_splits)

lemma view_at_mono: "view_at h p = Some v \<Longrightarrow> prefix h h' \<Longrightarrow> view_at h' p = Some v"
  using prefix_length [of h h'] prefix_nth [of h h' p]
  by (auto simp: view_at_def split: if_splits)

lemma list_at_mono: "list_at h a = Some ps \<Longrightarrow> prefix h h' \<Longrightarrow> list_at h' a = Some ps"
  using prefix_length [of h h'] prefix_nth [of h h' a]
  by (auto simp: list_at_def split: if_splits)

lemma array_at_mono:
  assumes "array_at h p = Some t" "prefix h h'"
  shows "array_at h' p = Some t"
proof -
  from assms(1) obtain b shp pos xs where v: "view_at h p = Some (b, shp, pos)"
    and bf: "buffer_at h b = Some xs"
    and rest: "list_all (\<lambda>i. i < length xs) pos" "t = Tensor shp (map ((!) xs) pos)"
    by (auto simp: array_at_def split: option.splits if_splits)
  from view_at_mono [OF v assms(2)] buffer_at_mono [OF bf assms(2)] rest
  show ?thesis by (simp add: array_at_def)
qed

lemma map_array_at_mono:
  assumes "map (array_at h) ps = map Some ts" "prefix h h'"
  shows "map (array_at h') ps = map Some ts"
proof (rule nth_equalityI)
  from assms(1) have len: "length ps = length ts" by (metis length_map)
  then show "length (map (array_at h') ps) = length (map Some ts)" by simp
  fix i assume "i < length (map (array_at h') ps)"
  then have i: "i < length ps" by simp
  with assms(1) len have "array_at h (ps ! i) = Some (ts ! i)" by (metis nth_map)
  from array_at_mono [OF this assms(2)] i len
  show "map (array_at h') ps ! i = map Some ts ! i" by simp
qed

lemma new_arrays_mono:
  "new_arrays Q n h ps \<Longrightarrow> prefix h h' \<Longrightarrow> new_arrays Q n h' ps"
  unfolding new_arrays_def list_all_iff by (blast intro: view_at_mono)

lemma array_at_value:
  assumes "array_at h p = Some t"
  obtains b pos xs where "view_at h p = Some (b, shape t, pos)" "buffer_at h b = Some xs"
    "list_all (\<lambda>i. i < length xs) pos" "elems t = map ((!) xs) pos"
  using assms by (auto simp: array_at_def split: option.splits if_splits)

lemma view_at_less: "view_at h p = Some v \<Longrightarrow> p < length h"
  by (simp add: view_at_def split: if_splits)

lemma buffer_at_less: "buffer_at h b = Some xs \<Longrightarrow> b < length h"
  by (simp add: buffer_at_def split: if_splits)

lemma list_at_less: "list_at h a = Some ps \<Longrightarrow> a < length h"
  by (simp add: list_at_def split: if_splits)

lemma array_at_less: "array_at h p = Some t \<Longrightarrow> p < length h"
  by (auto simp: array_at_def dest: view_at_less split: option.splits)

subsection \<open>What numpy's functions allocate\<close>

lemma new_array_eq:
  "new_array h t
     = (Suc (length h), h @ [Buf (elems t), Arr (length h) (shape t) [0..<length (elems t)]])"
  by (simp add: new_array_def alloc_def)

lemma array_at_new_array:
  "array_at (h @ [Buf (elems t), Arr (length h) (shape t) [0..<length (elems t)]]) (Suc (length h))
     = Some t"
  by (simp add: array_at_def view_at_def buffer_at_def nth_append list_all_iff map_nth)

lemma np_result_built:
  assumes "\<And>b t. res = Inr t \<Longrightarrow> length h \<le> b \<Longrightarrow> Q b (shape t)"
  shows "array_built Q h (np_result h res) res"
proof (cases res)
  case (Inl err)
  then show ?thesis by (simp add: array_built_def np_result_def)
next
  case (Inr t)
  let ?h' = "h @ [Buf (elems t), Arr (length h) (shape t) [0..<length (elems t)]]"
  have r: "np_result h res = (Inr (Suc (length h)), ?h')"
    using Inr by (simp add: np_result_def new_array_eq)
  have v: "view_at ?h' (Suc (length h)) = Some (length h, shape t, [0..<length (elems t)])"
    by (simp add: view_at_def nth_append)
  have "prefix h ?h'" by (simp add: prefix_def)
  moreover have "Q (length h) (shape t)" using Inr by (rule assms) simp
  ultimately show ?thesis
    unfolding array_built_def r using Inr v array_at_new_array [of h t] by simp
qed

subsection \<open>Comprehensions\<close>

lemma comprehension_with_built:
  assumes step: "\<And>h' s x. x \<in> set xs \<Longrightarrow> prefix h0 h' \<Longrightarrow>
            array_built Q h' (fst (g h' s x)) (fst (G s x)) \<and> snd (g h' s x) = snd (G s x)"
    and pre: "prefix h0 h"
  shows "arrays_built Q (length h0) h (fst (comprehension_with g h s xs)) (fst (collect_with G s xs))
         \<and> snd (comprehension_with g h s xs) = snd (collect_with G s xs)"
  using step pre
proof (induction xs arbitrary: h s)
  case Nil
  then show ?case by (simp add: arrays_built_def new_arrays_def)
next
  case (Cons x xs)
  from Cons.prems(1) [of x h s] Cons.prems(2)
  have st: "array_built Q h (fst (g h s x)) (fst (G s x))" and ss: "snd (g h s x) = snd (G s x)"
    by simp_all
  obtain r1 h1 s1 where g: "g h s x = ((r1, h1), s1)" by (metis prod.collapse)
  obtain v1 where G: "G s x = (v1, s1)" using ss g by (metis prod.collapse snd_conv)
  from st g G have p1: "prefix h h1" by (simp add: array_built_def)
  show ?case
  proof (cases v1)
    case (Inl err)
    with st g G have "r1 = Inl err" by (simp add: array_built_def)
    then show ?thesis using g G Inl p1 by (simp add: arrays_built_def)
  next
    case (Inr t)
    with st g G obtain p b shp pos where r1: "r1 = Inr p" and pn: "length h \<le> p"
      and v: "view_at h1 p = Some (b, shp, pos)" and q: "Q b shp" and a: "array_at h1 p = Some t"
      by (auto simp: array_built_def)
    have pre1: "prefix h0 h1" using Cons.prems(2) p1 by (rule prefix_order.trans)
    have IH: "arrays_built Q (length h0) h1 (fst (comprehension_with g h1 s1 xs))
                (fst (collect_with G s1 xs))
              \<and> snd (comprehension_with g h1 s1 xs) = snd (collect_with G s1 xs)"
      by (rule Cons.IH [OF _ pre1]) (rule Cons.prems(1), simp_all)
    obtain r2 h2 s2 where c: "comprehension_with g h1 s1 xs = ((r2, h2), s2)"
      by (metis prod.collapse)
    obtain v2 where C: "collect_with G s1 xs = (v2, s2)" using IH c by (metis prod.collapse snd_conv)
    from IH c C have ab: "arrays_built Q (length h0) h1 (r2, h2) v2" by simp
    then have p2: "prefix h1 h2" by (simp add: arrays_built_def)
    have p02: "prefix h h2" using p1 p2 by (rule prefix_order.trans)
    show ?thesis
    proof (cases v2)
      case (Inl err)
      with ab have "r2 = Inl err" by (simp add: arrays_built_def)
      then show ?thesis using g G r1 \<open>v1 = Inr t\<close> c C Inl p02 by (simp add: arrays_built_def)
    next
      case (Inr ts)
      with ab obtain ps where r2: "r2 = Inr ps" and na: "new_arrays Q (length h0) h2 ps"
        and m: "map (array_at h2) ps = map Some ts"
        by (auto simp: arrays_built_def)
      have "length h0 \<le> p" using pn prefix_length [OF Cons.prems(2)] by simp
      moreover note view_at_mono [OF v p2] array_at_mono [OF a p2]
      ultimately have "new_arrays Q (length h0) h2 (p # ps)"
        and "map (array_at h2) (p # ps) = map Some (t # ts)"
        using na m q by (simp_all add: new_arrays_def)
      then show ?thesis
        using g G r1 \<open>v1 = Inr t\<close> c C r2 Inr p02 by (simp add: arrays_built_def)
    qed
  qed
qed

lemma comprehension_as_with:
  "comprehension g h xs = fst (comprehension_with (\<lambda>h s x. (g h x, s)) h () xs)"
proof (induction xs arbitrary: h)
  case Nil
  show ?case by simp
next
  case (Cons x xs)
  obtain r1 h1 where g: "g h x = (r1, h1)" by (cases "g h x")
  show ?case
  proof (cases r1)
    case (Inl err)
    then show ?thesis using g by simp
  next
    case (Inr p)
    obtain r2 h2 where c: "comprehension g h1 xs = (r2, h2)" by (cases "comprehension g h1 xs")
    with Cons.IH [of h1] obtain s2 where
      "comprehension_with (\<lambda>h s x. (g h x, s)) h1 () xs = ((r2, h2), s2)"
      by (metis prod.collapse)
    then show ?thesis using g Inr c by (cases r2) simp_all
  qed
qed

lemma collect_as_with: "collect (map G xs) = fst (collect_with (\<lambda>s x. (G x, s)) () xs)"
proof (induction xs)
  case Nil
  show ?case by simp
next
  case (Cons x xs)
  obtain v2 s2 where c: "collect_with (\<lambda>s x. (G x, s)) () xs = (v2, s2)"
    by (cases "collect_with (\<lambda>s x. (G x, s)) () xs")
  with Cons.IH have "collect (map G xs) = v2" by simp
  then show ?case using c by (cases "G x"; cases v2) simp_all
qed

lemma comprehension_built:
  assumes step: "\<And>h' x. x \<in> set xs \<Longrightarrow> prefix h h' \<Longrightarrow> array_built Q h' (g h' x) (G x)"
  shows "arrays_built Q (length h) h (comprehension g h xs) (collect (map G xs))"
proof -
  have "arrays_built Q (length h) h (fst (comprehension_with (\<lambda>h s x. (g h x, s)) h () xs))
          (fst (collect_with (\<lambda>s x. (G x, s)) () xs))
        \<and> snd (comprehension_with (\<lambda>h s x. (g h x, s)) h () xs)
          = snd (collect_with (\<lambda>s x. (G x, s)) () xs)"
    by (rule comprehension_with_built [where ?h0.0 = h]) (simp_all add: step)
  then show ?thesis by (simp add: comprehension_as_with collect_as_with)
qed

lemma new_list_built:
  assumes "arrays_built Q (length h) h r res"
  shows "built Q h (new_list r) res"
proof -
  obtain r1 h1 where r: "r = (r1, h1)" by (cases r)
  from assms r have p: "prefix h h1" by (simp add: arrays_built_def)
  show ?thesis
  proof (cases res)
    case (Inl err)
    with assms r have "r1 = Inl err" by (simp add: arrays_built_def)
    then show ?thesis using r Inl p by (simp add: built_def new_list_def)
  next
    case (Inr ts)
    with assms r obtain ps where r1: "r1 = Inr ps" and na: "new_arrays Q (length h) h1 ps"
      and m: "map (array_at h1) ps = map Some ts"
      by (auto simp: arrays_built_def)
    let ?h2 = "h1 @ [Lst ps]"
    have p12: "prefix h1 ?h2" by simp
    have nl: "new_list r = (Inr (length h1), ?h2)" using r r1 by (simp add: new_list_def alloc_def)
    have l: "list_at ?h2 (length h1) = Some ps" by (simp add: list_at_def)
    have "tree_at ?h2 (length h1) = Some ts"
      unfolding tree_at_iff using l map_array_at_mono [OF m p12] by blast
    moreover have "prefix h ?h2" using p p12 by (rule prefix_order.trans)
    moreover note new_arrays_mono [OF na p12] prefix_length [OF p] l
    ultimately show ?thesis unfolding built_def nl using Inr by simp
  qed
qed

subsection \<open>Elementwise operations\<close>

lemma values_of:
  assumes "map (array_at h) ps = map Some ws"
  shows "map (\<lambda>p. the (array_at h p)) ps = ws"
    and "\<And>p. p \<in> set ps \<Longrightarrow> array_at h p = Some (the (array_at h p))"
proof -
  have "map (\<lambda>p. the (array_at h p)) ps = map the (map (array_at h) ps)" by simp
  also have "\<dots> = ws" unfolding assms by (simp add: comp_def)
  finally show "map (\<lambda>p. the (array_at h p)) ps = ws" .
  fix p assume "p \<in> set ps"
  then have "array_at h p \<in> set (map Some ws)" unfolding assms [symmetric] by simp
  then show "array_at h p = Some (the (array_at h p))" by auto
qed

lemma owns_mono: "prefix h h' \<Longrightarrow> length h' \<le> b \<Longrightarrow> owns h b shp"
  using prefix_length [of h h'] by (simp add: owns_def)

lemma collect_Inr: "collect (map (\<lambda>x. Inr (f x)) xs) = Inr (map f xs)"
  by (induction xs) simp_all

lemma tree_binop_collect:
  "tree_binop f xs ys = collect (map (\<lambda>(x, y). np_binop f x y) (zip xs ys))"
  by (induction f xs ys rule: tree_binop.induct) (simp_all split: sum.splits)

lemma np_map_obj_built:
  assumes "array_at h p = Some x" "prefix h h'"
  shows "array_built (owns h) h' (np_map_obj f h' p) (Inr (Tensor (shape x) (map f (elems x))))"
proof -
  have "np_map_obj f h' p = np_result h' (Inr (Tensor (shape x) (map f (elems x))))"
    using array_at_mono [OF assms] by (simp add: np_map_obj_def)
  then show ?thesis using np_result_built [where h = h' and Q = "owns h"] owns_mono [OF assms(2)] by simp
qed

lemma np_binop_obj_built:
  assumes "array_at h p = Some x" "array_at h q = Some y" "prefix h h'"
  shows "array_built (owns h) h' (np_binop_obj f h' (p, q)) (np_binop f x y)"
proof -
  have "np_binop_obj f h' (p, q) = np_result h' (np_binop f x y)"
    using array_at_mono [OF assms(1,3)] array_at_mono [OF assms(2,3)]
    by (simp add: np_binop_obj_def)
  then show ?thesis using np_result_built [where h = h' and Q = "owns h"] owns_mono [OF assms(3)] by simp
qed

lemma tree_map_built:
  assumes "map (array_at h) ps = map Some ws"
  shows "built (owns h) h (new_list (comprehension (np_map_obj f) h ps))
           (Inr (map (\<lambda>x. Tensor (shape x) (map f (elems x))) ws))"
proof -
  let ?val = "\<lambda>p. the (array_at h p)"
  let ?F = "\<lambda>x. Tensor (shape x) (map f (elems x))"
  have "arrays_built (owns h) (length h) h (comprehension (np_map_obj f) h ps)
          (collect (map (\<lambda>p. Inr (?F (?val p))) ps))"
    by (rule comprehension_built) (rule np_map_obj_built, rule values_of(2) [OF assms])
  moreover have "collect (map (\<lambda>p. Inr (?F (?val p))) ps) = Inr (map ?F ws)"
  proof -
    have "map ?F ws = map ?F (map ?val ps)" by (simp only: values_of(1) [OF assms])
    also have "\<dots> = map (\<lambda>p. ?F (?val p)) ps" by (simp add: comp_def)
    finally show ?thesis by (simp only: collect_Inr)
  qed
  ultimately show ?thesis by (simp add: new_list_built)
qed

lemma tree_binop_built:
  assumes a: "map (array_at h) ps = map Some wa" and b: "map (array_at h) qs = map Some wb"
  shows "built (owns h) h (new_list (comprehension (np_binop_obj f) h (zip ps qs)))
           (tree_binop f wa wb)"
proof -
  let ?val = "\<lambda>p. the (array_at h p)"
  let ?G = "\<lambda>pq. np_binop f (?val (fst pq)) (?val (snd pq))"
  have "arrays_built (owns h) (length h) h (comprehension (np_binop_obj f) h (zip ps qs))
          (collect (map ?G (zip ps qs)))"
  proof (rule comprehension_built)
    fix h' :: "'a heap" and x assume x: "x \<in> set (zip ps qs)" and p: "prefix h h'"
    obtain p1 q1 where pq: "x = (p1, q1)" by (cases x)
    with x have "p1 \<in> set ps" "q1 \<in> set qs" by (auto dest: set_zip_leftD set_zip_rightD)
    then show "array_built (owns h) h' (np_binop_obj f h' x) (?G x)"
      unfolding pq fst_conv snd_conv
      by (intro np_binop_obj_built values_of(2) [OF a] values_of(2) [OF b] p)
  qed
  moreover have "map ?G (zip ps qs) = map (\<lambda>(x, y). np_binop f x y) (zip (map ?val ps) (map ?val qs))"
    by (simp add: zip_map_map case_prod_unfold)
  ultimately show ?thesis
    unfolding tree_binop_collect using values_of(1) [OF a] values_of(1) [OF b]
    by (simp add: new_list_built)
qed

lemma binops_built:
  fixes h :: "'a::{minus,times,inverse} heap"
  assumes a: "tree_at h a = Some wa" and b: "tree_at h b = Some wb"
  shows "built (owns h) h (sub_obj h a b) (sub wa wb)"
    and "built (owns h) h (mul_obj h a b) (mul wa wb)"
    and "built (owns h) h (div_obj h a b) (div_w wa wb)"
proof -
  from a obtain ps where la: "list_at h a = Some ps" and ma: "map (array_at h) ps = map Some wa"
    by (auto simp: tree_at_iff)
  from b obtain qs where lb: "list_at h b = Some qs" and mb: "map (array_at h) qs = map Some wb"
    by (auto simp: tree_at_iff)
  show "built (owns h) h (sub_obj h a b) (sub wa wb)"
    unfolding sub_obj_def sub_def la lb using tree_binop_built [OF ma mb] by simp
  show "built (owns h) h (mul_obj h a b) (mul wa wb)"
    unfolding mul_obj_def mul_def la lb using tree_binop_built [OF ma mb] by simp
  show "built (owns h) h (div_obj h a b) (div_w wa wb)"
    unfolding div_obj_def div_w_def la lb using tree_binop_built [OF ma mb] by simp
qed

lemma maps_built:
  fixes h :: "'a::{zero,one,times,ord} heap"
  assumes a: "tree_at h a = Some wa"
  shows "built (owns h) h (scale_obj h a s) (Inr (scale wa s))"
    and "built (owns h) h (minimum_obj h a s) (Inr (minimum wa s))"
    and "built (owns h) h (maximum_obj h a s) (Inr (maximum wa s))"
    and "built (owns h) h (counter_obj h a) (Inr (counter wa))"
proof -
  from a obtain ps where la: "list_at h a = Some ps" and ma: "map (array_at h) ps = map Some wa"
    by (auto simp: tree_at_iff)
  show "built (owns h) h (scale_obj h a s) (Inr (scale wa s))"
    unfolding scale_obj_def scale_def la using tree_map_built [OF ma] by simp
  show "built (owns h) h (minimum_obj h a s) (Inr (minimum wa s))"
    unfolding minimum_obj_def minimum_def la using tree_map_built [OF ma] by simp
  show "built (owns h) h (maximum_obj h a s) (Inr (maximum wa s))"
    unfolding maximum_obj_def maximum_def la using tree_map_built [OF ma] by simp
  show "built (owns h) h (counter_obj h a) (Inr (counter wa))"
    unfolding counter_obj_def counter_def la using tree_map_built [OF ma] by simp
qed

subsection \<open>add\<close>

lemma sum_obj_built:
  assumes "prefix h0 h" "map (array_at h0) qs = map Some xs"
    and "case acc of
           None \<Rightarrow> accv = Tensor [] [0]
         | Some p \<Rightarrow> length h0 \<le> p \<and> array_at h p = Some accv \<and>
                     (\<exists>b shp pos. view_at h p = Some (b, shp, pos) \<and> length h0 \<le> b)"
  shows "prefix h (snd (sum_obj h acc qs)) \<and>
         (case py_sum accv xs of
            Inl err \<Rightarrow> fst (sum_obj h acc qs) = Inl err
          | Inr t \<Rightarrow>
              (\<exists>p b shp pos. fst (sum_obj h acc qs) = Inr p \<and> length h0 \<le> p \<and>
                 view_at (snd (sum_obj h acc qs)) p = Some (b, shp, pos) \<and> length h0 \<le> b \<and>
                 array_at (snd (sum_obj h acc qs)) p = Some t))"
  using assms
proof (induction qs arbitrary: h acc accv xs)
  case Nil
  then have xs: "xs = []" by simp
  show ?case
  proof (cases acc)
    case None
    have "array_built (owns h0) h (np_result h (Inr (Tensor [] [0::'a]))) (Inr (Tensor [] [0]))"
      by (rule np_result_built) (rule owns_mono [OF Nil.prems(1)])
    moreover have "length h0 \<le> length h" using Nil.prems(1) by (rule prefix_length)
    ultimately show ?thesis using None Nil.prems(3) xs
      by (fastforce simp: array_built_def owns_def)
  next
    case (Some p)
    then show ?thesis using Nil.prems(3) xs by auto
  qed
next
  case (Cons q qs)
  from Cons.prems(2) obtain x xs' where xs: "xs = x # xs'" and q: "array_at h0 q = Some x"
    and rest: "map (array_at h0) qs = map Some xs'"
    by (cases xs) auto
  let ?step = "case acc of
              None \<Rightarrow>
                (case array_at h q of
                   None \<Rightarrow> (Inl TypeError, h)
                 | Some x \<Rightarrow> np_result h (np_binop (+) (Tensor [] [0]) x))
            | Some p \<Rightarrow> np_binop_obj (+) h (p, q)"
  have qh: "array_at h q = Some x" using q Cons.prems(1) by (rule array_at_mono)
  have st: "array_built (owns h0) h ?step (np_binop (+) accv x)"
  proof (cases acc)
    case None
    then have "?step = np_result h (np_binop (+) accv x)" using qh Cons.prems(3) by simp
    then show ?thesis
      using np_result_built [where h = h and Q = "owns h0"] owns_mono [OF Cons.prems(1)] by simp
  next
    case (Some p)
    then have "array_at h p = Some accv" using Cons.prems(3) by simp
    from np_binop_obj_built [OF this qh prefix_order.refl, of "(+)"]
    have "array_built (owns h) h (np_binop_obj (+) h (p, q)) (np_binop (+) accv x)" .
    then have "array_built (owns h0) h (np_binop_obj (+) h (p, q)) (np_binop (+) accv x)"
      using prefix_length [OF Cons.prems(1)]
      by (auto simp: array_built_def owns_def split: sum.splits)
    then show ?thesis using Some by simp
  qed
  obtain r1 h1 where s: "?step = (r1, h1)" by (cases ?step)
  from st s have p1: "prefix h h1" by (simp add: array_built_def)
  show ?case
  proof (cases "np_binop (+) accv x")
    case (Inl err)
    with st s have "r1 = Inl err" by (simp add: array_built_def)
    then show ?thesis using s Inl xs p1 by simp
  next
    case (Inr t)
    with st s obtain p b shp pos where r1: "r1 = Inr p" and pn: "length h \<le> p"
      and v: "view_at h1 p = Some (b, shp, pos)" and o: "owns h0 b shp"
      and a: "array_at h1 p = Some t"
      by (auto simp: array_built_def)
    have pre1: "prefix h0 h1" using Cons.prems(1) p1 by (rule prefix_order.trans)
    have acc1: "case Some p of
           None \<Rightarrow> t = Tensor [] [0]
         | Some p \<Rightarrow> length h0 \<le> p \<and> array_at h1 p = Some t \<and>
                     (\<exists>b shp pos. view_at h1 p = Some (b, shp, pos) \<and> length h0 \<le> b)"
      using pn prefix_length [OF Cons.prems(1)] v o a by (simp add: owns_def)
    note IH = Cons.IH [OF pre1 rest acc1]
    have run: "sum_obj h acc (q # qs) = sum_obj h1 (Some p) qs"
      using s r1 by simp
    have val: "py_sum accv xs = py_sum t xs'" using xs Inr by simp
    from IH have "prefix h (snd (sum_obj h1 (Some p) qs))"
      using p1 by (blast intro: prefix_order.trans)
    then show ?thesis unfolding run val using IH by simp
  qed
qed

lemma fold_min_less:
  "i < fold min (map length rest) n \<longleftrightarrow> i < n \<and> (\<forall>u \<in> set rest. i < length u)"
  by (induction rest arbitrary: n) auto

lemma zip_star_map: "zip_star (map (map f) ts) = map (map f) (zip_star ts)"
proof (cases ts)
  case Nil
  then show ?thesis by (simp add: zip_star_def)
next
  case (Cons t rest)
  define n where "n = fold min (map length rest) (length t)"
  have l: "zip_star (map (map f) ts) = map (\<lambda>i. map (\<lambda>u. map f u ! i) ts) [0..<n]"
    by (simp add: zip_star_def Cons comp_def n_def)
  have r: "map (map f) (zip_star ts) = map (\<lambda>i. map (\<lambda>u. f (u ! i)) ts) [0..<n]"
    by (simp add: zip_star_def Cons comp_def n_def)
  have "map (\<lambda>u. map f u ! i) ts = map (\<lambda>u. f (u ! i)) ts" if "i < n" for i
  proof -
    from that have "\<forall>u \<in> set ts. i < length u" unfolding n_def fold_min_less Cons by simp
    then show ?thesis by simp
  qed
  then show ?thesis unfolding l r by simp
qed

lemma zip_star_mem:
  assumes "xs \<in> set (zip_star ts)" "x \<in> set xs"
  shows "\<exists>u \<in> set ts. x \<in> set u"
proof (cases ts)
  case Nil
  then show ?thesis using assms by (simp add: zip_star_def)
next
  case (Cons t rest)
  with assms(1) obtain i where i: "i < fold min (map length rest) (length t)"
    and xs: "xs = map (\<lambda>u. u ! i) ts"
    by (auto simp: zip_star_def)
  from assms(2) xs obtain u where u: "u \<in> set ts" "x = u ! i" by auto
  from i u(1) have "i < length u" unfolding fold_min_less Cons by auto
  then have "x \<in> set u" using u(2) by simp
  then show ?thesis using u(1) by blast
qed

lemma add_obj_built:
  fixes h :: "'a::{zero,plus} heap"
  assumes "map (tree_at h) trees = map Some wss"
  shows "built (owns h) h (add_obj h trees) (add wss)"
proof -
  let ?val = "\<lambda>p. the (array_at h p)"
  let ?pss = "map (\<lambda>a. the (list_at h a)) trees"
  have each: "list_at h a = Some (the (list_at h a)) \<and>
              map (array_at h) (the (list_at h a)) = map Some (the (tree_at h a))"
    if "a \<in> set trees" for a
  proof -
    from that have "tree_at h a \<in> set (map Some wss)" unfolding assms [symmetric] by simp
    then obtain ws where t: "tree_at h a = Some ws" by auto
    then obtain ps where "list_at h a = Some ps" "map (array_at h) ps = map Some ws"
      by (auto simp: tree_at_iff)
    then show ?thesis using t by simp
  qed
  have "map (list_at h) trees = map Some ?pss" using each by simp
  then have pss: "those (map (list_at h) trees) = Some ?pss" by (simp only: those_map_Some)
  have wss: "wss = map (\<lambda>a. the (tree_at h a)) trees"
  proof -
    have "map (\<lambda>a. the (tree_at h a)) trees = map the (map (tree_at h) trees)" by simp
    also have "\<dots> = wss" unfolding assms by (simp add: comp_def)
    finally show ?thesis by simp
  qed
  have vals: "map (map ?val) ?pss = wss"
  proof -
    have "map ?val (the (list_at h a)) = the (tree_at h a)" if "a \<in> set trees" for a
      using each [OF that] by (simp add: values_of(1))
    then show ?thesis unfolding wss by simp
  qed
  have valid: "array_at h q = Some (?val q)" if "qs \<in> set (zip_star ?pss)" "q \<in> set qs" for qs q
  proof -
    from zip_star_mem [OF that] obtain a where a: "a \<in> set trees" "q \<in> set (the (list_at h a))"
      by auto
    from each [OF a(1)] have "map (array_at h) (the (list_at h a)) = map Some (the (tree_at h a))"
      by simp
    from values_of(2) [OF this a(2)] show ?thesis .
  qed
  have "arrays_built (owns h) (length h) h
          (comprehension (\<lambda>h' qs. sum_obj h' None qs) h (zip_star ?pss))
          (collect (map (\<lambda>qs. py_sum (Tensor [] [0]) (map ?val qs)) (zip_star ?pss)))"
  proof (rule comprehension_built)
    fix h' :: "'a heap" and qs assume qs: "qs \<in> set (zip_star ?pss)" and p: "prefix h h'"
    have "array_at h' q = Some (?val q)" if "q \<in> set qs" for q
      using valid [OF qs that] p by (rule array_at_mono)
    then have m: "map (array_at h') qs = map Some (map ?val qs)" by simp
    have "case None :: nat option of
           None \<Rightarrow> Tensor [] [0::'a] = Tensor [] [0]
         | Some p \<Rightarrow> length h' \<le> p \<and> array_at h' p = Some (Tensor [] [0]) \<and>
                     (\<exists>b shp pos. view_at h' p = Some (b, shp, pos) \<and> length h' \<le> b)"
      by simp
    from sum_obj_built [OF prefix_order.refl m this] prefix_length [OF p]
    show "array_built (owns h) h' (sum_obj h' None qs) (py_sum (Tensor [] [0]) (map ?val qs))"
      by (auto simp: array_built_def owns_def split: sum.splits)
  qed
  moreover have "map (\<lambda>qs. py_sum (Tensor [] [0]) (map ?val qs)) (zip_star ?pss)
               = map (py_sum (Tensor [] [0])) (zip_star wss)"
    unfolding vals [symmetric] zip_star_map by (simp add: comp_def)
  ultimately show ?thesis
    unfolding add_obj_def add_def pss by (simp add: new_list_built)
qed

subsection \<open>partition\<close>

lemma block_map: "block m i (map f xs) = map f (block m i xs)"
  by (simp add: block_def take_map drop_map)

lemma slice_axes_map: "slice_axes ns ds (map f xs) = map f (slice_axes ns ds xs)"
proof (induction ns ds xs rule: slice_axes.induct)
  case (1 n ns d ds xs)
  have "map (\<lambda>i. slice_axes ns ds (block (prod_list ns) i (map f xs))) [0..<min d n]
      = map (\<lambda>i. map f (slice_axes ns ds (block (prod_list ns) i xs))) [0..<min d n]"
    by (rule map_cong [OF refl]) (simp add: block_map "1.IH")
  then show ?case by (simp only: slice_axes.simps map_concat map_map comp_def)
qed simp_all

lemma set_block: "set (block m i xs) \<subseteq> set xs"
  unfolding block_def by (meson set_take_subset set_drop_subset subset_trans)

lemma set_slice_axes: "set (slice_axes ns ds xs) \<subseteq> set xs"
proof (induction ns ds xs rule: slice_axes.induct)
  case (1 n ns d ds xs)
  have "set (slice_axes ns ds (block (prod_list ns) i xs)) \<subseteq> set xs" if "i < min d n" for i
  proof -
    from that have "i \<in> set [0..<min d n]" by simp
    from "1.IH" [OF this] set_block [of "prod_list ns" i xs] show ?thesis by blast
  qed
  note sub = this
  show ?case
  proof
    fix x assume "x \<in> set (slice_axes (n # ns) (d # ds) xs)"
    then obtain i where "i < min d n" "x \<in> set (slice_axes ns ds (block (prod_list ns) i xs))"
      by auto
    with sub show "x \<in> set xs" by blast
  qed
qed simp_all

lemma sliced_shape_Nil: "sliced_shape ns ds = [] \<longleftrightarrow> ns = []"
  by (induction ns ds rule: sliced_shape.induct) simp_all

lemma partition_loop_collect:
  "partition_loop ws Sf St =
     collect (map (\<lambda>kv. case getitem ws (index (the (map_of Sf (fst kv)))) of
                          Inl err \<Rightarrow> Inl err
                        | Inr x \<Rightarrow> leading_block x (eshape (snd kv)))
                (filter (\<lambda>(k, v). map_of Sf k \<noteq> None) St))"
proof (induction St)
  case Nil
  show ?case by simp
next
  case (Cons e St)
  obtain k v where e: "e = (k, v)" by (cases e)
  show ?case
  proof (cases "map_of Sf k")
    case None
    then show ?thesis using Cons.IH by (simp add: e)
  next
    case (Some en)
    then show ?thesis using Cons.IH by (simp add: e split: sum.splits)
  qed
qed

lemma new_view_array:
  assumes v: "view_at h p = Some (b, shp, pos)" and bf: "buffer_at h b = Some xs"
    and ok: "list_all (\<lambda>i. i < length xs) pos'"
  shows "view_at (h @ [Arr b shp' pos']) (length h) = Some (b, shp', pos')"
    and "array_at (h @ [Arr b shp' pos']) (length h) = Some (Tensor shp' (map ((!) xs) pos'))"
proof -
  have p: "prefix h (h @ [Arr b shp' pos'])" by simp
  show w: "view_at (h @ [Arr b shp' pos']) (length h) = Some (b, shp', pos')"
    by (simp add: view_at_def)
  from buffer_at_mono [OF bf p] w ok
  show "array_at (h @ [Arr b shp' pos']) (length h) = Some (Tensor shp' (map ((!) xs) pos'))"
    by (simp add: array_at_def)
qed

lemma np_slices_obj_built:
  assumes a: "array_at h p = Some x" and mem: "p \<in> set ps" and la: "list_at h a = Some ps"
    and pre: "prefix h h'"
  shows "array_built (views_tree h a) h' (np_slices_obj h' p req) (leading_block x req)"
proof -
  from a obtain b pos xs where v: "view_at h p = Some (b, shape x, pos)"
    and bf: "buffer_at h b = Some xs" and ok: "list_all (\<lambda>i. i < length xs) pos"
    and el: "elems x = map ((!) xs) pos"
    by (rule array_at_value)
  note v' = view_at_mono [OF v pre] and bf' = buffer_at_mono [OF bf pre]
    and a' = array_at_mono [OF a pre]
  show ?thesis
  proof (cases "ndim x < length req")
    case True
    then show ?thesis using v' by (simp add: np_slices_obj_def leading_block_def ndim_def array_built_def)
  next
    case False
    then have lb: "leading_block x req = Inr (sub_block x req)" by (simp add: leading_block_def)
    show ?thesis
    proof (cases "shape x = []")
      case True
      then have "sub_block x req = x" by (cases x) (simp add: sub_block_def)
      moreover have "np_slices_obj h' p req = np_result h' (Inr x)"
        using False True v' a' by (simp add: np_slices_obj_def ndim_def)
      moreover have "array_built (views_tree h a) h' (np_result h' (Inr x)) (Inr x)"
        using prefix_length [OF pre] True by (intro np_result_built) (simp add: views_tree_def)
      ultimately show ?thesis using lb by simp
    next
      case ne: False
      let ?shp = "sliced_shape (shape x) req" and ?pos = "slice_axes (shape x) req pos"
      let ?h2 = "h' @ [Arr b ?shp ?pos]"
      have run: "np_slices_obj h' p req = (Inr (length h'), ?h2)"
        using False ne v' by (simp add: np_slices_obj_def ndim_def new_view_def alloc_def)
      have ok': "list_all (\<lambda>i. i < length xs) ?pos"
        using ok set_slice_axes [of "shape x" req pos] by (auto simp: list_all_iff)
      note nv = new_view_array [OF v' bf' ok', of ?shp]
      have val: "Tensor ?shp (map ((!) xs) ?pos) = sub_block x req"
        by (simp add: sub_block_def el slice_axes_map)
      have "buffer_of h p = Some b" using v by (simp add: buffer_of_def)
      then have "b \<in> set (tree_buffers h a)"
        using mem by (force simp: tree_buffers_def la map_filter_def)
      then have "views_tree h a b ?shp" using ne by (simp add: views_tree_def sliced_shape_Nil)
      then show ?thesis
        unfolding array_built_def run lb using nv val by (simp add: prefix_def)
    qed
  qed
qed

lemma partition_obj_built:
  assumes a: "tree_at h a = Some wa"
  shows "built (views_tree h a) h (partition_obj h a Sf St) (partition_w wa Sf St)"
proof -
  from a obtain ps where la: "list_at h a = Some ps" and ma: "map (array_at h) ps = map Some wa"
    by (auto simp: tree_at_iff)
  from ma have len: "length ps = length wa" by (metis length_map)
  let ?g = "\<lambda>h' kv. case getitem ps (index (the (map_of Sf (fst kv)))) of
                           Inl err \<Rightarrow> (Inl err, h')
                         | Inr p \<Rightarrow> np_slices_obj h' p (eshape (snd kv))"
  let ?G = "\<lambda>kv. case getitem wa (index (the (map_of Sf (fst kv)))) of
                          Inl err \<Rightarrow> Inl err
                        | Inr x \<Rightarrow> leading_block x (eshape (snd kv))"
  have "arrays_built (views_tree h a) (length h) h
          (comprehension ?g h (filter (\<lambda>(k, v). map_of Sf k \<noteq> None) St))
          (collect (map ?G (filter (\<lambda>(k, v). map_of Sf k \<noteq> None) St)))"
  proof (rule comprehension_built)
    fix h' :: "'a heap" and kv :: "string \<times> entry" assume pre: "prefix h h'"
    let ?i = "index (the (map_of Sf (fst kv)))"
    show "array_built (views_tree h a) h' (?g h' kv) (?G kv)"
    proof (cases "?i < length ps")
      case False
      then show ?thesis using len pre by (simp add: getitem_def array_built_def)
    next
      case True
      then have "array_at h (ps ! ?i) = Some (wa ! ?i)" using ma len by (metis nth_map)
      from np_slices_obj_built [OF this nth_mem [OF True] la pre, of "eshape (snd kv)"]
      show ?thesis using True len by (simp add: getitem_def)
    qed
  qed
  then show ?thesis
    unfolding partition_obj_def partition_w_def partition_loop_collect la
    by (simp add: new_list_built)
qed

subsection \<open>unravel and ravel\<close>

lemma unravel_loop_collect:
  "unravel_loop v i acc sk =
     (case fst (collect_with (\<lambda>i e. (np_reshape (slice v i (i + snd e)) (fst e), i + snd e)) i sk) of
        Inl err \<Rightarrow> Inl err
      | Inr ts \<Rightarrow> Inr (acc @ ts))"
proof (induction sk arbitrary: i acc)
  case Nil
  show ?case by simp
next
  case (Cons e sk)
  obtain shp len where e: "e = (shp, len)" by (cases e)
  show ?case
  proof (cases "np_reshape (slice v i (i + len)) shp")
    case (Inl err)
    then show ?thesis by (simp add: e)
  next
    case (Inr t)
    then show ?thesis
      using Cons.IH [of "i + len" "acc @ [t]"]
      by (simp add: e split: prod.splits sum.splits)
  qed
qed

lemma slice_map: "slice (map f xs) i j = map f (slice xs i j)"
  by (simp add: slice_def take_map drop_map)

lemma set_slice: "set (slice xs i j) \<subseteq> set xs"
  unfolding slice_def by (meson set_take_subset set_drop_subset subset_trans)

lemma np_reshape_slice_obj_built:
  assumes vec: "vector_at h v = Some xs" and pre: "prefix h h'"
  shows "array_built (views_vector h v) h' (np_reshape_slice_obj h' v i j shp)
           (np_reshape (slice xs i j) shp)"
proof -
  from vec obtain x where a: "array_at h v = Some x" and nd: "ndim x = 1" and xs: "elems x = xs"
    by (auto simp: vector_at_def split: option.splits if_splits)
  from a obtain b pos buf where w: "view_at h v = Some (b, shape x, pos)"
    and bf: "buffer_at h b = Some buf" and ok: "list_all (\<lambda>i. i < length buf) pos"
    and el: "elems x = map ((!) buf) pos"
    by (rule array_at_value)
  note w' = view_at_mono [OF w pre] and bf' = buffer_at_mono [OF bf pre]
  have l: "length (slice pos i j) = length (slice xs i j)"
    unfolding xs [symmetric] el slice_map by simp
  show ?thesis
  proof (cases "length (slice xs i j) = prod_list shp")
    case False
    then show ?thesis
      using w' nd l by (simp add: np_reshape_slice_obj_def np_reshape_def ndim_def array_built_def)
  next
    case True
    let ?h2 = "h' @ [Arr b shp (slice pos i j)]"
    have run: "np_reshape_slice_obj h' v i j shp = (Inr (length h'), ?h2)"
      using w' nd l True by (simp add: np_reshape_slice_obj_def ndim_def new_view_def alloc_def)
    have ok': "list_all (\<lambda>i. i < length buf) (slice pos i j)"
      using ok set_slice [of pos i j] by (auto simp: list_all_iff)
    note nv = new_view_array [OF w' bf' ok', of shp]
    have val: "map ((!) buf) (slice pos i j) = slice xs i j"
      unfolding xs [symmetric] el slice_map ..
    have "views_vector h v b shp" using w by (simp add: views_vector_def buffer_of_def)
    then show ?thesis
      unfolding array_built_def run using nv val True by (simp add: np_reshape_def prefix_def)
  qed
qed

lemma unravel_obj_built:
  assumes vec: "vector_at h v = Some xs"
  shows "built (views_vector h v) h (unravel_obj h v sk) (unravel xs sk)"
proof -
  let ?g = "\<lambda>h' i e. (np_reshape_slice_obj h' v i (i + snd e) (fst e), i + snd e)"
  let ?G = "\<lambda>i e. (np_reshape (slice xs i (i + snd e)) (fst e), i + snd e)"
  have "arrays_built (views_vector h v) (length h) h (fst (comprehension_with ?g h 0 sk))
          (fst (collect_with ?G 0 sk))
        \<and> snd (comprehension_with ?g h 0 sk) = snd (collect_with ?G 0 sk)"
    by (rule comprehension_with_built [where ?h0.0 = h])
       (simp_all add: np_reshape_slice_obj_built [OF vec])
  then have "built (views_vector h v) h (unravel_obj h v sk) (fst (collect_with ?G 0 sk))"
    unfolding unravel_obj_def by (simp add: new_list_built)
  moreover have "unravel xs sk = fst (collect_with ?G 0 sk)"
    unfolding unravel_def unravel_loop_collect by (simp split: sum.splits)
  ultimately show ?thesis by simp
qed

lemma ravel_obj_built:
  assumes a: "tree_at h a = Some wa"
  shows "array_built (owns h) h (ravel_obj h a)
           (case ravel wa of Inl err \<Rightarrow> Inl err | Inr v \<Rightarrow> Inr (Tensor [length v] v))"
  unfolding ravel_obj_def a option.case
  by (rule np_result_built) (simp add: owns_def)

subsection \<open>uniform and add_normal\<close>

lemma collect_with_map:
  "collect_with (\<lambda>s x. G s (f x)) s xs = collect_with G s (map f xs)"
  by (induction xs arbitrary: s) (simp_all split: prod.splits sum.splits)

lemma uniform_loop_collect:
  "collect_with
     (\<lambda>g x. case draw_many draw g low high (np_size x) of
               (vals, g') \<Rightarrow> (Inr (Tensor (shape x) vals), g')) g ws
   = (Inr (fst (uniform_loop draw g ws low high)), snd (uniform_loop draw g ws low high))"
  by (induction ws arbitrary: g) (simp_all split: prod.splits)

lemma add_normal_loop_collect:
  "collect_with
     (\<lambda>g x. case draw_many draw g loc scl (np_size x) of
               (noise, g') \<Rightarrow> (Inr (Tensor (shape x) (map2 (+) (elems x) noise)), g')) g ws
   = (Inr (fst (add_normal_loop draw g ws loc scl)), snd (add_normal_loop draw g ws loc scl))"
  by (induction ws arbitrary: g) (simp_all split: prod.splits)

lemma draws_built:
  fixes F :: "'a tensor \<Rightarrow> 'a list \<Rightarrow> 'a tensor" and draw :: "'g \<Rightarrow> 'a \<Rightarrow> 'a \<Rightarrow> 'a \<times> 'g"
  assumes m: "map (array_at h) ps = map Some ws"
    and g: "g = (\<lambda>h' s p. case array_at h' p of
                      None \<Rightarrow> ((Inl TypeError, h'), s)
                    | Some x \<Rightarrow>
                        (case draw_many draw s lo hi (np_size x) of
                           (vals, s') \<Rightarrow> (np_result h' (Inr (F x vals)), s')))"
    and G: "G = (\<lambda>s x. case draw_many draw s lo hi (np_size x) of
                           (vals, s') \<Rightarrow> (Inr (F x vals), s'))"
  shows "built (owns h) h (new_list (fst (comprehension_with g h s ps)))
           (fst (collect_with G s ws))
         \<and> snd (comprehension_with g h s ps) = snd (collect_with G s ws)"
proof -
  let ?val = "\<lambda>p. the (array_at h p)"
  have "arrays_built (owns h) (length h) h (fst (comprehension_with g h s ps))
          (fst (collect_with (\<lambda>s p. G s (?val p)) s ps))
        \<and> snd (comprehension_with g h s ps) = snd (collect_with (\<lambda>s p. G s (?val p)) s ps)"
  proof (rule comprehension_with_built [where ?h0.0 = h])
    fix h' :: "'a heap" and s p assume p: "p \<in> set ps" and pre: "prefix h h'"
    have a: "array_at h' p = Some (?val p)"
      using values_of(2) [OF m p] pre by (rule array_at_mono)
    obtain vals s' where d: "draw_many draw s lo hi (np_size (?val p)) = (vals, s')"
      by (cases "draw_many draw s lo hi (np_size (?val p))")
    have "array_built (owns h) h' (np_result h' (Inr (F (?val p) vals))) (Inr (F (?val p) vals))"
      by (rule np_result_built) (rule owns_mono [OF pre])
    then show "array_built (owns h) h' (fst (g h' s p)) (fst (G s (?val p)))
               \<and> snd (g h' s p) = snd (G s (?val p))"
      by (simp add: g G a d)
  qed simp
  moreover have "collect_with (\<lambda>s p. G s (?val p)) s ps = collect_with G s ws"
    using collect_with_map [of G ?val s ps] by (simp only: values_of(1) [OF m])
  ultimately show ?thesis by (simp add: new_list_built)
qed

lemma uniform_obj_built:
  assumes a: "tree_at h a = Some wa"
  shows "built (owns h) h (fst (uniform_obj draw h store a lo hi rng))
           (Inr (fst (uniform draw store wa lo hi rng)))
         \<and> snd (uniform_obj draw h store a lo hi rng) = snd (uniform draw store wa lo hi rng)"
proof -
  from a obtain ps where la: "list_at h a = Some ps" and ma: "map (array_at h) ps = map Some wa"
    by (auto simp: tree_at_iff)
  let ?r = "case rng of None \<Rightarrow> DefaultUniform | Some r \<Rightarrow> r"
  note b = draws_built [OF ma refl refl, where draw = draw and lo = lo and hi = hi
      and F = "\<lambda>x vals. Tensor (shape x) vals" and s = "store ?r",
      unfolded uniform_loop_collect fst_conv snd_conv]
  show ?thesis
    unfolding uniform_obj_def uniform_def la
    using b by (simp add: Let_def case_prod_beta)
qed

lemma add_normal_obj_built:
  fixes h :: "'a::plus heap"
  assumes a: "tree_at h a = Some wa"
  shows "built (owns h) h (fst (add_normal_obj draw h store a lo hi rng))
           (Inr (fst (add_normal draw store wa lo hi rng)))
         \<and> snd (add_normal_obj draw h store a lo hi rng) = snd (add_normal draw store wa lo hi rng)"
proof -
  from a obtain ps where la: "list_at h a = Some ps" and ma: "map (array_at h) ps = map Some wa"
    by (auto simp: tree_at_iff)
  let ?r = "case rng of None \<Rightarrow> DefaultAddNormal | Some r \<Rightarrow> r"
  note b = draws_built [OF ma refl refl, where draw = draw and lo = lo and hi = hi
      and F = "\<lambda>x noise. Tensor (shape x) (map2 (+) (elems x) noise)" and s = "store ?r",
      unfolded add_normal_loop_collect fst_conv snd_conv]
  show ?thesis
    unfolding add_normal_obj_def add_normal_def la
    using b by (simp add: Let_def case_prod_beta)
qed

subsection \<open>expand on objects\<close>

lemma list_at_update:
  "a < length h \<Longrightarrow> list_at ((snd (new_array h t))[a := Lst ps']) a = Some ps'"
  by (simp add: list_at_def new_array_eq)

lemma array_at_keep:
  assumes la: "list_at h a = Some ps" and w: "array_at h p = Some w"
  shows "array_at ((snd (new_array h t))[a := Lst ps']) p = Some w"
proof -
  from la have a: "a < length h" and ha: "h ! a = Lst ps"
    by (auto simp: list_at_def split: if_splits obj.splits)
  from w obtain b pos xs where v: "view_at h p = Some (b, shape w, pos)"
    and bf: "buffer_at h b = Some xs" and ok: "list_all (\<lambda>i. i < length xs) pos"
    and el: "elems w = map ((!) xs) pos"
    by (rule array_at_value)
  let ?h1 = "(snd (new_array h t))[a := Lst ps']"
  from v ha have p: "p < length h" "p \<noteq> a" "h ! p = Arr b (shape w) pos"
    by (auto simp: view_at_def split: if_splits obj.splits)
  from bf ha have b: "b < length h" "b \<noteq> a" "h ! b = Buf xs"
    by (auto simp: buffer_at_def split: if_splits obj.splits)
  have "view_at ?h1 p = Some (b, shape w, pos)"
    using p by (simp add: view_at_def new_array_eq nth_append)
  moreover have "buffer_at ?h1 b = Some xs"
    using b by (simp add: buffer_at_def new_array_eq nth_append)
  ultimately show ?thesis using ok el by (cases w) (simp add: array_at_def)
qed

lemma array_at_new:
  assumes "a < length h"
  shows "array_at ((snd (new_array h t))[a := Lst ps']) (Suc (length h)) = Some t"
  using assms
  by (simp add: array_at_def view_at_def buffer_at_def new_array_eq nth_append list_all_iff map_nth)

lemma map_array_at_keep:
  assumes "list_at h a = Some ps0" "map (array_at h) ps = map Some ws"
  shows "map (array_at ((snd (new_array h t))[a := Lst ps'])) ps = map Some ws"
proof (rule nth_equalityI)
  from assms(2) have len: "length ps = length ws" by (metis length_map)
  then show "length (map (array_at ((snd (new_array h t))[a := Lst ps'])) ps) = length (map Some ws)"
    by simp
  fix i assume "i < length (map (array_at ((snd (new_array h t))[a := Lst ps'])) ps)"
  then have i: "i < length ps" by simp
  with assms(2) len have "array_at h (ps ! i) = Some (ws ! i)" by (metis nth_map)
  from array_at_keep [OF assms(1) this] i len
  show "map (array_at ((snd (new_array h t))[a := Lst ps'])) ps ! i = map Some ws ! i" by simp
qed

lemma expand_obj_loop_Cons:
  "list_at h a = Some ps \<Longrightarrow>
   expand_obj_loop h a Sl ((k, v) # Sg) =
     (case map_of Sl k of
        Some _ \<Rightarrow>
          (if index v < length ps
           then (case array_at h (ps ! index v) of
                   None \<Rightarrow> (Inl TypeError, h)
                 | Some w \<Rightarrow>
                     (case np_pad w (map2 (\<lambda>b ws. int b - int ws) (eshape v) (shape w)) of
                        Inl err \<Rightarrow> (Inl err, h)
                      | Inr t \<Rightarrow>
                          expand_obj_loop
                            ((snd (new_array h t))[a := Lst (ps[index v := Suc (length h)])]) a Sl Sg))
           else (Inl IndexError, h))
      | None \<Rightarrow>
          expand_obj_loop
            ((snd (new_array h (np_zeros (eshape v))))
               [a := Lst (list_insert ps (index v) (Suc (length h)))]) a Sl Sg)"
proof (cases "map_of Sl k")
  case None
  assume "list_at h a = Some ps"
  then show ?thesis using None by (simp add: new_array_eq)
next
  case (Some e')
  assume la: "list_at h a = Some ps"
  show ?thesis
  proof (cases "index v < length ps")
    case False
    then show ?thesis using la Some by (simp add: getitem_def)
  next
    case True
    show ?thesis
    proof (cases "array_at h (ps ! index v)")
      case None
      then show ?thesis using la Some True by (simp add: getitem_def)
    next
      case (Some w)
      then show ?thesis
        using la \<open>map_of Sl k = Some e'\<close> True
        by (cases "np_pad w (map2 (\<lambda>b ws. int b - int ws) (eshape v) (shape w))")
           (simp_all add: getitem_def new_array_eq)
    qed
  qed
qed

lemma expand_obj_loop_rule:
  assumes ret: "\<And>h. P h (Inr a, h)"
    and err: "\<And>h e. P h (Inl e, h)"
    and step: "\<And>h ps ps' t r. list_at h a = Some ps \<Longrightarrow>
        (\<exists>i. ps' = ps[i := Suc (length h)] \<and> i < length ps)
          \<or> (\<exists>i. ps' = list_insert ps i (Suc (length h))) \<Longrightarrow>
        P ((snd (new_array h t))[a := Lst ps']) r \<Longrightarrow> P h r"
  shows "P h (expand_obj_loop h a Sl Sg)"
proof (induction Sg arbitrary: h)
  case Nil
  show ?case by (simp add: ret)
next
  case (Cons e Sg)
  obtain k v where e: "e = (k, v)" by (cases e)
  show ?case
  proof (cases "list_at h a")
    case None
    then show ?thesis by (simp add: e err)
  next
    case (Some ps)
    note unf = expand_obj_loop_Cons [OF Some, of Sl k v Sg]
    show ?thesis
    proof (cases "map_of Sl k")
      case None
      let ?ps1 = "list_insert ps (index v) (Suc (length h))"
      let ?h1 = "(snd (new_array h (np_zeros (eshape v))))[a := Lst ?ps1]"
      have d: "(\<exists>i. ?ps1 = ps[i := Suc (length h)] \<and> i < length ps)
             \<or> (\<exists>i. ?ps1 = list_insert ps i (Suc (length h)))"
        by (rule disjI2, rule exI [of _ "index v"], rule refl)
      have "P h (expand_obj_loop ?h1 a Sl Sg)"
        by (rule step [OF Some d Cons.IH])
      then show ?thesis using None by (simp only: e unf option.case)
    next
      case (Some e')
      note shared = Some
      show ?thesis
      proof (cases "index v < length ps")
        case False
        then show ?thesis using shared err by (simp only: e unf option.case if_False)
      next
        case True
        show ?thesis
        proof (cases "array_at h (ps ! index v)")
          case None
          then show ?thesis using shared True err by (simp only: e unf option.case if_True)
        next
          case (Some w)
          show ?thesis
          proof (cases "np_pad w (map2 (\<lambda>b ws. int b - int ws) (eshape v) (shape w))")
            case (Inl er)
            then show ?thesis
              using shared True Some err by (simp only: e unf option.case sum.case if_True)
          next
            case (Inr t)
            let ?ps1 = "ps[index v := Suc (length h)]"
            let ?h1 = "(snd (new_array h t))[a := Lst ?ps1]"
            have d: "(\<exists>i. ?ps1 = ps[i := Suc (length h)] \<and> i < length ps)
                   \<or> (\<exists>i. ?ps1 = list_insert ps i (Suc (length h)))"
              using True by (intro disjI1 exI [of _ "index v"]) simp
            have "P h (expand_obj_loop ?h1 a Sl Sg)"
              by (rule step [OF \<open>list_at h a = Some ps\<close> d Cons.IH])
            then show ?thesis
              using shared True Some Inr by (simp only: e unf option.case sum.case if_True)
          qed
        qed
      qed
    qed
  qed
qed

lemma expand_obj_returns_input:
  "fst (expand_obj_loop h a Sl Sg) = Inr r \<Longrightarrow> r = a"
proof -
  have "\<forall>r. fst (expand_obj_loop h a Sl Sg) = Inr r \<longrightarrow> r = a"
    by (rule expand_obj_loop_rule [where P = "\<lambda>h res. \<forall>r. fst res = Inr r \<longrightarrow> r = a"]) simp_all
  then show "fst (expand_obj_loop h a Sl Sg) = Inr r \<Longrightarrow> r = a" by blast
qed

lemma expand_obj_frame:
  "length h \<le> length (snd (expand_obj_loop h a Sl Sg)) \<and>
   (\<forall>p < length h. p \<noteq> a \<longrightarrow> snd (expand_obj_loop h a Sl Sg) ! p = h ! p)"
proof (rule expand_obj_loop_rule
    [where P = "\<lambda>h res. length h \<le> length (snd res) \<and> (\<forall>p < length h. p \<noteq> a \<longrightarrow> snd res ! p = h ! p)"])
  fix h :: "'a heap" and ps ps' :: "nat list" and t :: "'a tensor"
    and r :: "(py_error + nat) \<times> 'a heap"
  let ?h1 = "(snd (new_array h t))[a := Lst ps']"
  assume "length ?h1 \<le> length (snd r) \<and> (\<forall>p < length ?h1. p \<noteq> a \<longrightarrow> snd r ! p = ?h1 ! p)"
  then have l: "length ?h1 \<le> length (snd r)"
    and f: "\<And>p. p < length ?h1 \<Longrightarrow> p \<noteq> a \<Longrightarrow> snd r ! p = ?h1 ! p" by blast+
  have "snd r ! p = h ! p" if "p < length h" "p \<noteq> a" for p
    using f [of p] that by (simp add: new_array_eq nth_append)
  then show "length h \<le> length (snd r) \<and> (\<forall>p < length h. p \<noteq> a \<longrightarrow> snd r ! p = h ! p)"
    using l by (simp add: new_array_eq)
qed simp_all

lemma expand_obj_keeps_new:
  "\<forall>ps. list_at h a = Some ps \<and> n \<le> length h \<and> (\<exists>q \<in> set ps. n \<le> q) \<and>
        \<not> isl (fst (expand_obj_loop h a Sl Sg)) \<longrightarrow>
     (\<exists>ps'. list_at (snd (expand_obj_loop h a Sl Sg)) a = Some ps' \<and> (\<exists>q \<in> set ps'. n \<le> q))"
proof (rule expand_obj_loop_rule
    [where P = "\<lambda>h res. \<forall>ps. list_at h a = Some ps \<and> n \<le> length h \<and> (\<exists>q \<in> set ps. n \<le> q) \<and>
        \<not> isl (fst res) \<longrightarrow> (\<exists>ps'. list_at (snd res) a = Some ps' \<and> (\<exists>q \<in> set ps'. n \<le> q))"])
  fix h :: "'a heap" and ps ps' :: "nat list" and t :: "'a tensor"
    and r :: "(py_error + nat) \<times> 'a heap"
  let ?h1 = "(snd (new_array h t))[a := Lst ps']"
  assume la: "list_at h a = Some ps"
    and upd: "(\<exists>i. ps' = ps[i := Suc (length h)] \<and> i < length ps)
              \<or> (\<exists>i. ps' = list_insert ps i (Suc (length h)))"
    and IH: "\<forall>ps. list_at ?h1 a = Some ps \<and> n \<le> length ?h1 \<and> (\<exists>q \<in> set ps. n \<le> q) \<and>
        \<not> isl (fst r) \<longrightarrow> (\<exists>ps'. list_at (snd r) a = Some ps' \<and> (\<exists>q \<in> set ps'. n \<le> q))"
  show "\<forall>ps. list_at h a = Some ps \<and> n \<le> length h \<and> (\<exists>q \<in> set ps. n \<le> q) \<and>
        \<not> isl (fst r) \<longrightarrow> (\<exists>ps'. list_at (snd r) a = Some ps' \<and> (\<exists>q \<in> set ps'. n \<le> q))"
  proof (intro allI impI, elim conjE)
    fix ps0 assume "list_at h a = Some ps0" and n: "n \<le> length h" and ok: "\<not> isl (fst r)"
    have "Suc (length h) \<in> set ps'"
      using upd by (auto simp: list_insert_def intro: set_update_memI)
    then have "\<exists>q \<in> set ps'. n \<le> q" using n by (intro bexI [of _ "Suc (length h)"]) simp_all
    moreover have "list_at ?h1 a = Some ps'" using list_at_less [OF la] by (rule list_at_update)
    moreover have "n \<le> length ?h1" using n by (simp add: new_array_eq)
    ultimately show "\<exists>ps'. list_at (snd r) a = Some ps' \<and> (\<exists>q \<in> set ps'. n \<le> q)"
      using IH ok by blast
  qed
qed simp_all

lemma expand_obj_refines:
  "list_at h a = Some ps \<Longrightarrow> map (array_at h) ps = map Some ws \<Longrightarrow>
   (case expand_loop ws Sl Sg of
      Inl e \<Rightarrow> fst (expand_obj_loop h a Sl Sg) = Inl e
    | Inr R \<Rightarrow> fst (expand_obj_loop h a Sl Sg) = Inr a \<and>
               tree_at (snd (expand_obj_loop h a Sl Sg)) a = Some R)"
proof (induction Sg arbitrary: h ps ws)
  case Nil
  then show ?case by (auto simp: tree_at_iff)
next
  case (Cons e Sg)
  obtain k v where e: "e = (k, v)" by (cases e)
  note la = Cons.prems(1) and m = Cons.prems(2)
  from m have len: "length ps = length ws" by (metis length_map)
  note unf = expand_obj_loop_Cons [OF la, of Sl k v Sg]
  show ?case
  proof (cases "map_of Sl k")
    case None
    let ?z = "np_zeros (eshape v) :: 'a tensor"
    let ?ps1 = "list_insert ps (index v) (Suc (length h))"
    let ?h1 = "(snd (new_array h ?z))[a := Lst ?ps1]"
    have l1: "list_at ?h1 a = Some ?ps1" using list_at_less [OF la] by (rule list_at_update)
    have shift: "map (array_at ?h1) ps = map Some ws" using la m by (rule map_array_at_keep)
    have new: "array_at ?h1 (Suc (length h)) = Some ?z"
      using list_at_less [OF la] by (rule array_at_new)
    have m1: "map (array_at ?h1) ?ps1 = map Some (list_insert ws (index v) ?z)"
      using shift new by (simp add: list_insert_def take_map [symmetric] drop_map [symmetric])
    have eq1: "expand_obj_loop h a Sl (e # Sg) = expand_obj_loop ?h1 a Sl Sg"
      using None by (simp only: e unf option.case)
    have eq2: "expand_loop ws Sl (e # Sg) = expand_loop (list_insert ws (index v) ?z) Sl Sg"
      using None by (simp add: e)
    show ?thesis unfolding eq1 eq2 by (rule Cons.IH [OF l1 m1])
  next
    case (Some e')
    show ?thesis
    proof (cases "index v < length ps")
      case False
      then have eq1: "expand_obj_loop h a Sl (e # Sg) = (Inl IndexError, h)"
        using Some by (simp only: e unf option.case if_False)
      have eq2: "expand_loop ws Sl (e # Sg) = Inl IndexError"
        using Some False len by (simp add: e getitem_def)
      show ?thesis unfolding eq1 eq2 by simp
    next
      case True
      then have w: "array_at h (ps ! index v) = Some (ws ! index v)"
        using m len by (metis nth_map)
      let ?w = "ws ! index v"
      show ?thesis
      proof (cases "np_pad ?w (map2 (\<lambda>b ws. int b - int ws) (eshape v) (shape ?w))")
        case (Inl er)
        then have eq1: "expand_obj_loop h a Sl (e # Sg) = (Inl er, h)"
          using Some True w by (simp only: e unf option.case sum.case if_True)
        have eq2: "expand_loop ws Sl (e # Sg) = Inl er"
          using Some True len Inl by (simp add: e getitem_def)
        show ?thesis unfolding eq1 eq2 by simp
      next
        case (Inr t)
        let ?ps1 = "ps[index v := Suc (length h)]"
        let ?h1 = "(snd (new_array h t))[a := Lst ?ps1]"
        have l1: "list_at ?h1 a = Some ?ps1" using list_at_less [OF la] by (rule list_at_update)
        have shift: "map (array_at ?h1) ps = map Some ws" using la m by (rule map_array_at_keep)
        have new: "array_at ?h1 (Suc (length h)) = Some t"
          using list_at_less [OF la] by (rule array_at_new)
        have m1: "map (array_at ?h1) ?ps1 = map Some (ws[index v := t])"
          using shift new by (simp add: map_update)
        have eq1: "expand_obj_loop h a Sl (e # Sg) = expand_obj_loop ?h1 a Sl Sg"
          using Some True w Inr by (simp only: e unf option.case sum.case if_True)
        have eq2: "expand_loop ws Sl (e # Sg) = expand_loop (ws[index v := t]) Sl Sg"
          using Some True len Inr by (simp add: e getitem_def)
        show ?thesis unfolding eq1 eq2 by (rule Cons.IH [OF l1 m1])
      qed
    qed
  qed
qed

lemma expand_obj_mutates:
  assumes t: "tree_at h a = Some ws" and ne: "Sg \<noteq> []"
    and ok: "\<not> isl (fst (expand_obj_loop h a Sl Sg))"
  shows "list_at (snd (expand_obj_loop h a Sl Sg)) a \<noteq> list_at h a"
proof -
  from t obtain ps where la: "list_at h a = Some ps" and m: "map (array_at h) ps = map Some ws"
    by (auto simp: tree_at_iff)
  have old: "q < length h" if "q \<in> set ps" for q
    using values_of(2) [OF m that] by (rule array_at_less)
  from ne obtain k v Sg' where Sg: "Sg = (k, v) # Sg'" by (cases Sg) auto
  note unf = expand_obj_loop_Cons [OF la, of Sl k v Sg']
  have "\<exists>t ps1. expand_obj_loop h a Sl Sg
                  = expand_obj_loop ((snd (new_array h t))[a := Lst ps1]) a Sl Sg'
          \<and> Suc (length h) \<in> set ps1"
  proof (cases "map_of Sl k")
    case None
    have "Suc (length h) \<in> set (list_insert ps (index v) (Suc (length h)))"
      by (simp add: list_insert_def)
    moreover have "expand_obj_loop h a Sl Sg = expand_obj_loop
        ((snd (new_array h (np_zeros (eshape v))))
           [a := Lst (list_insert ps (index v) (Suc (length h)))]) a Sl Sg'"
      using None by (simp only: Sg unf option.case)
    ultimately show ?thesis by blast
  next
    case (Some e')
    show ?thesis
    proof (cases "index v < length ps")
      case False
      then have "expand_obj_loop h a Sl Sg = (Inl IndexError, h)"
        using Some by (simp only: Sg unf option.case if_False)
      then show ?thesis using ok by simp
    next
      case True
      show ?thesis
      proof (cases "array_at h (ps ! index v)")
        case None
        then have "expand_obj_loop h a Sl Sg = (Inl TypeError, h)"
          using Some True by (simp only: Sg unf option.case if_True)
        then show ?thesis using ok by simp
      next
        case (Some w)
        show ?thesis
        proof (cases "np_pad w (map2 (\<lambda>b ws. int b - int ws) (eshape v) (shape w))")
          case (Inl er)
          then have "expand_obj_loop h a Sl Sg = (Inl er, h)"
            using \<open>map_of Sl k = Some e'\<close> True Some
            by (simp only: Sg unf option.case sum.case if_True)
          then show ?thesis using ok by simp
        next
          case (Inr t)
          have "Suc (length h) \<in> set (ps[index v := Suc (length h)])"
            using True by (rule set_update_memI)
          moreover have "expand_obj_loop h a Sl Sg
                = expand_obj_loop ((snd (new_array h t))[a := Lst (ps[index v := Suc (length h)])])
                    a Sl Sg'"
            using \<open>map_of Sl k = Some e'\<close> True Some Inr
            by (simp only: Sg unf option.case sum.case if_True)
          ultimately show ?thesis by blast
        qed
      qed
    qed
  qed
  then obtain t ps1 where
    run: "expand_obj_loop h a Sl Sg = expand_obj_loop ((snd (new_array h t))[a := Lst ps1]) a Sl Sg'"
    and new: "Suc (length h) \<in> set ps1" by blast
  let ?h1 = "(snd (new_array h t))[a := Lst ps1]"
  have l1: "list_at ?h1 a = Some ps1" using list_at_less [OF la] by (rule list_at_update)
  have n1: "length h \<le> length ?h1" by (simp add: new_array_eq)
  have ex: "\<exists>q \<in> set ps1. length h \<le> q"
    using new by (intro bexI [of _ "Suc (length h)"]) simp_all
  from expand_obj_keeps_new [of ?h1 a "length h" Sl Sg', rule_format, of ps1] l1 ex n1 ok run
  obtain ps' q where "list_at (snd (expand_obj_loop h a Sl Sg)) a = Some ps'" "q \<in> set ps'"
    "length h \<le> q" by auto
  then show ?thesis using la old by force
qed

subsection \<open>A heap with a tree and a vector\<close>

text \<open>
  Two buffers with the arrays that own them, the list of these two arrays (a tree, at
  address 4), and a vector of three elements (at address 6) with its buffer.
\<close>

definition ex_heap :: "real heap" where
  "ex_heap = [Buf [1, 2], Arr 0 [2] [0, 1], Buf [3], Arr 2 [1] [0], Lst [1, 3],
              Buf [5, 6, 7], Arr 5 [3] [0, 1, 2]]"

definition ex_local :: named_skeleton where
  "ex_local = [(''a'', \<lparr>index = 0, eshape = [2]\<rparr>), (''b'', \<lparr>index = 1, eshape = [1]\<rparr>)]"

definition ex_global :: named_skeleton where
  "ex_global = [(''a'', \<lparr>index = 0, eshape = [3]\<rparr>), (''z'', \<lparr>index = 1, eshape = [2]\<rparr>),
                (''b'', \<lparr>index = 2, eshape = [1]\<rparr>)]"

definition ex_small :: named_skeleton where
  "ex_small = [(''a'', \<lparr>index = 0, eshape = [1]\<rparr>), (''b'', \<lparr>index = 1, eshape = [1]\<rparr>)]"

lemma ex_tree: "tree_at ex_heap 4 = Some [Tensor [2] [1, 2], Tensor [1] [3]]"
  by code_simp

lemma ex_vector: "vector_at ex_heap 6 = Some [5, 6, 7]"
  by code_simp

lemma ex_mul: "mul_obj ex_heap 4 4
     = (Inr 11, ex_heap @ [Buf [1, 4], Arr 7 [2] [0, 1], Buf [9], Arr 9 [1] [0], Lst [8, 10]])"
  by code_simp

lemma ex_partition: "partition_obj ex_heap 4 ex_local ex_small
     = (Inr 9, ex_heap @ [Arr 0 [1] [0], Arr 2 [1] [0], Lst [7, 8]])"
  by code_simp

lemma ex_unravel: "unravel_obj ex_heap 6 [([1], 1), ([2], 2)]
     = (Inr 9, ex_heap @ [Arr 5 [1] [0], Arr 5 [2] [1, 2], Lst [7, 8]])"
  by code_simp

lemma ex_expand: "expand_obj ex_heap 4 ex_local ex_global
     = (Inr 4, [Buf [1, 2], Arr 0 [2] [0, 1], Buf [3], Arr 2 [1] [0], Lst [8, 10, 12],
                Buf [5, 6, 7], Arr 5 [3] [0, 1, 2],
                Buf [1, 2, 0], Arr 7 [3] [0, 1, 2], Buf [0, 0], Arr 9 [2] [0, 1],
                Buf [3], Arr 11 [1] [0]])"
  by code_simp

text \<open>
  C9, as amended. Let \<open>a\<close> and \<open>b\<close> be trees, \<open>trees\<close> a sequence of trees and \<open>v\<close> a
  vector. Each of \<open>add\<close>, \<open>sub\<close>, \<open>mul\<close>, \<open>div\<close>, \<open>scale\<close>, \<open>uniform\<close>, \<open>add_normal\<close>,
  \<open>minimum\<close>, \<open>maximum\<close>, \<open>counter\<close>, \<open>unravel\<close> and \<open>partition\<close> leaves every existing
  object (the input lists, their arrays and the buffers of these among them) unchanged,
  raises exactly the exception of its value-level definition, and otherwise returns a
  new list of new array objects that hold the value-level result; \<open>ravel\<close> does the
  same with a single new array. The arrays returned by every operation except \<open>unravel\<close>
  and \<open>partition\<close> own buffers allocated by the call. The arrays returned by \<open>unravel\<close>
  read the buffer of the vector it was given, and those returned by \<open>partition\<close> read
  the buffers of the arrays of the tree it was given (an array without axes is copied).
  \<open>uniform\<close> and \<open>add_normal\<close> leave the generator store as their value-level
  definitions do. \<open>expand\<close> is the exception: it returns the very list it was given,
  changes that list in place (whenever the target skeleton is not empty) so that it holds
  what the value-level \<open>expand\<close> computes, and changes no other object.
\<close>

theorem operations_build_trees_or_views_except_expand:
  fixes h :: "'a::{zero,one,plus,minus,times,inverse,ord} heap"
  assumes "tree_at h a = Some wa" and "tree_at h b = Some wb"
    and "map (tree_at h) trees = map Some wss" and "vector_at h v = Some xs"
  shows
  "built (owns h) h (add_obj h trees) (add wss)
   \<and> built (owns h) h (sub_obj h a b) (sub wa wb)
   \<and> built (owns h) h (mul_obj h a b) (mul wa wb)
   \<and> built (owns h) h (div_obj h a b) (div_w wa wb)
   \<and> built (owns h) h (scale_obj h a s) (Inr (scale wa s))
   \<and> built (owns h) h (fst (uniform_obj draw h store a lo hi rng))
        (Inr (fst (uniform draw store wa lo hi rng)))
   \<and> snd (uniform_obj draw h store a lo hi rng) = snd (uniform draw store wa lo hi rng)
   \<and> built (owns h) h (fst (add_normal_obj draw h store a lo hi rng))
        (Inr (fst (add_normal draw store wa lo hi rng)))
   \<and> snd (add_normal_obj draw h store a lo hi rng) = snd (add_normal draw store wa lo hi rng)
   \<and> built (owns h) h (minimum_obj h a s) (Inr (minimum wa s))
   \<and> built (owns h) h (maximum_obj h a s) (Inr (maximum wa s))
   \<and> built (owns h) h (counter_obj h a) (Inr (counter wa))
   \<and> array_built (owns h) h (ravel_obj h a)
        (case ravel wa of Inl err \<Rightarrow> Inl err | Inr u \<Rightarrow> Inr (Tensor [length u] u))
   \<and> built (views_vector h v) h (unravel_obj h v sk) (unravel xs sk)
   \<and> built (views_tree h a) h (partition_obj h a Sf St) (partition_w wa Sf St)
   \<and> (\<forall>r. fst (expand_obj h a Sl Sg) = Inr r \<longrightarrow> r = a)
   \<and> length h \<le> length (snd (expand_obj h a Sl Sg))
   \<and> (\<forall>p < length h. p \<noteq> a \<longrightarrow> snd (expand_obj h a Sl Sg) ! p = h ! p)
   \<and> (Sg \<noteq> [] \<and> \<not> isl (fst (expand_obj h a Sl Sg)) \<longrightarrow>
        list_at (snd (expand_obj h a Sl Sg)) a \<noteq> list_at h a)
   \<and> (case expand wa Sl Sg of
         Inl e \<Rightarrow> fst (expand_obj h a Sl Sg) = Inl e
       | Inr R \<Rightarrow> fst (expand_obj h a Sl Sg) = Inr a \<and>
                  tree_at (snd (expand_obj h a Sl Sg)) a = Some R)"
proof -
  note a = assms(1) and b = assms(2)
  have 1: "built (owns h) h (add_obj h trees) (add wss)"
    using assms(3) by (rule add_obj_built)
  have 2: "built (owns h) h (sub_obj h a b) (sub wa wb)"
    "built (owns h) h (mul_obj h a b) (mul wa wb)"
    "built (owns h) h (div_obj h a b) (div_w wa wb)"
    using a b by (rule binops_built)+
  have 3: "built (owns h) h (scale_obj h a s) (Inr (scale wa s))"
    "built (owns h) h (minimum_obj h a s) (Inr (minimum wa s))"
    "built (owns h) h (maximum_obj h a s) (Inr (maximum wa s))"
    "built (owns h) h (counter_obj h a) (Inr (counter wa))"
    using a by (rule maps_built)+
  have 4: "built (owns h) h (fst (uniform_obj draw h store a lo hi rng))
        (Inr (fst (uniform draw store wa lo hi rng)))
      \<and> snd (uniform_obj draw h store a lo hi rng) = snd (uniform draw store wa lo hi rng)"
    "built (owns h) h (fst (add_normal_obj draw h store a lo hi rng))
        (Inr (fst (add_normal draw store wa lo hi rng)))
      \<and> snd (add_normal_obj draw h store a lo hi rng) = snd (add_normal draw store wa lo hi rng)"
    using a by (rule uniform_obj_built add_normal_obj_built)+
  have 5: "array_built (owns h) h (ravel_obj h a)
        (case ravel wa of Inl err \<Rightarrow> Inl err | Inr u \<Rightarrow> Inr (Tensor [length u] u))"
    using a by (rule ravel_obj_built)
  have 6: "built (views_vector h v) h (unravel_obj h v sk) (unravel xs sk)"
    using assms(4) by (rule unravel_obj_built)
  have 7: "built (views_tree h a) h (partition_obj h a Sf St) (partition_w wa Sf St)"
    using a by (rule partition_obj_built)
  have 8: "\<forall>r. fst (expand_obj h a Sl Sg) = Inr r \<longrightarrow> r = a"
    unfolding expand_obj_def by (blast dest: expand_obj_returns_input)
  have 9: "length h \<le> length (snd (expand_obj h a Sl Sg))"
    "\<forall>p < length h. p \<noteq> a \<longrightarrow> snd (expand_obj h a Sl Sg) ! p = h ! p"
    unfolding expand_obj_def using expand_obj_frame [of h a Sl Sg] by blast+
  have 10: "list_at (snd (expand_obj h a Sl Sg)) a \<noteq> list_at h a"
    if "Sg \<noteq> []" "\<not> isl (fst (expand_obj h a Sl Sg))"
    using a that unfolding expand_obj_def by (rule expand_obj_mutates)
  have 11: "case expand wa Sl Sg of
           Inl e \<Rightarrow> fst (expand_obj h a Sl Sg) = Inl e
         | Inr R \<Rightarrow> fst (expand_obj h a Sl Sg) = Inr a \<and>
                    tree_at (snd (expand_obj h a Sl Sg)) a = Some R"
  proof -
    from a obtain ps where "list_at h a = Some ps" "map (array_at h) ps = map Some wa"
      by (auto simp: tree_at_iff)
    then show ?thesis unfolding expand_obj_def expand_def by (rule expand_obj_refines)
  qed
  from 1 2 3 4 5 6 7 8 9 10 11 show ?thesis by blast
qed

theorem operations_build_trees_or_views_except_expand_witness:
  "mul_obj ex_heap 4 4
     = (Inr 11, ex_heap @ [Buf [1, 4], Arr 7 [2] [0, 1], Buf [9], Arr 9 [1] [0], Lst [8, 10]])
   \<and> built (owns ex_heap) ex_heap (mul_obj ex_heap 4 4) (Inr [Tensor [2] [1, 4], Tensor [1] [9]])
   \<and> built (views_vector ex_heap 6) ex_heap (unravel_obj ex_heap 6 [([1], 1), ([2], 2)])
        (Inr [Tensor [1] [5], Tensor [2] [6, 7]])
   \<and> built (views_tree ex_heap 4) ex_heap (partition_obj ex_heap 4 ex_local ex_small)
        (Inr [Tensor [1] [1], Tensor [1] [3]])
   \<and> expand_obj ex_heap 4 ex_local ex_global
     = (Inr 4, [Buf [1, 2], Arr 0 [2] [0, 1], Buf [3], Arr 2 [1] [0], Lst [8, 10, 12],
                Buf [5, 6, 7], Arr 5 [3] [0, 1, 2],
                Buf [1, 2, 0], Arr 7 [3] [0, 1, 2], Buf [0, 0], Arr 9 [2] [0, 1],
                Buf [3], Arr 11 [1] [0]])
   \<and> list_at (snd (expand_obj ex_heap 4 ex_local ex_global)) 4 \<noteq> list_at ex_heap 4
   \<and> tree_at (snd (expand_obj ex_heap 4 ex_local ex_global)) 4
     = Some [Tensor [3] [1, 2, 0], Tensor [2] [0, 0], Tensor [1] [3]]"
proof -
  let ?ws = "[Tensor [2] [1, 2], Tensor [1] [3 :: real]]"
  let ?sk = "[([1], 1), ([2], 2)] :: (nat list \<times> nat) list"
  have ts: "map (tree_at ex_heap) [4] = map Some [?ws]" by (simp add: ex_tree)
  have v1: "mul ?ws ?ws = Inr [Tensor [2] [1, 4], Tensor [1] [9]]" by code_simp
  have v2: "unravel [5, 6, 7 :: real] ?sk = Inr [Tensor [1] [5], Tensor [2] [6, 7]]" by code_simp
  have v3: "partition_w ?ws ex_local ex_small = Inr [Tensor [1] [1], Tensor [1] [3]]" by code_simp
  have v4: "expand ?ws ex_local ex_global
              = Inr [Tensor [3] [1, 2, 0], Tensor [2] [0, 0], Tensor [1] [3]]"
    by code_simp
  have ne: "ex_global \<noteq> []" by (simp add: ex_global_def)
  have ok: "\<not> isl (fst (expand_obj ex_heap 4 ex_local ex_global))" by (simp add: ex_expand)
  note inst = operations_build_trees_or_views_except_expand
    [OF ex_tree ex_tree ts ex_vector, where s = 1 and draw = toy_draw and store = "\<lambda>r. 0"
       and lo = 0 and hi = 1 and rng = None and sk = ?sk and Sf = ex_local and St = ex_small
       and Sl = ex_local and Sg = ex_global]
  from inst have "built (owns ex_heap) ex_heap (mul_obj ex_heap 4 4) (mul ?ws ?ws)" by blast
  then have c1: "built (owns ex_heap) ex_heap (mul_obj ex_heap 4 4)
                   (Inr [Tensor [2] [1, 4], Tensor [1] [9]])"
    by (simp only: v1)
  from inst have "built (views_vector ex_heap 6) ex_heap (unravel_obj ex_heap 6 ?sk)
                    (unravel [5, 6, 7] ?sk)" by blast
  then have c2: "built (views_vector ex_heap 6) ex_heap (unravel_obj ex_heap 6 ?sk)
                   (Inr [Tensor [1] [5], Tensor [2] [6, 7]])"
    by (simp only: v2)
  from inst have "built (views_tree ex_heap 4) ex_heap (partition_obj ex_heap 4 ex_local ex_small)
                    (partition_w ?ws ex_local ex_small)" by blast
  then have c3: "built (views_tree ex_heap 4) ex_heap (partition_obj ex_heap 4 ex_local ex_small)
                   (Inr [Tensor [1] [1], Tensor [1] [3]])"
    by (simp only: v3)
  from inst ne ok
  have c4: "list_at (snd (expand_obj ex_heap 4 ex_local ex_global)) 4 \<noteq> list_at ex_heap 4"
    by blast
  from inst have "case expand ?ws ex_local ex_global of
           Inl e \<Rightarrow> fst (expand_obj ex_heap 4 ex_local ex_global) = Inl e
         | Inr R \<Rightarrow> fst (expand_obj ex_heap 4 ex_local ex_global) = Inr 4 \<and>
                    tree_at (snd (expand_obj ex_heap 4 ex_local ex_global)) 4 = Some R"
    by blast
  then have c5: "tree_at (snd (expand_obj ex_heap 4 ex_local ex_global)) 4
     = Some [Tensor [3] [1, 2, 0], Tensor [2] [0, 0], Tensor [1] [3]]"
    unfolding v4 by simp
  from ex_mul c1 c2 c3 ex_expand c4 c5 show ?thesis by blast
qed

text \<open>
  C9, as stated, fails for \<open>partition\<close> and \<open>unravel\<close>: the tree returned is not built
  anew. On the heap above \<open>partition\<close> returns a list of two array objects that read
  the buffers 0 and 2 of the input tree's arrays, and \<open>unravel\<close> a list of two array
  objects that read the buffer 5 of the input vector: the elements of the returned
  tensors are the very elements of the input.
\<close>

theorem partition_and_unravel_return_views:
  "partition_obj ex_heap 4 ex_local ex_small
     = (Inr 9, ex_heap @ [Arr 0 [1] [0], Arr 2 [1] [0], Lst [7, 8]])
   \<and> buffer_of ex_heap 1 = Some 0
   \<and> buffer_of (snd (partition_obj ex_heap 4 ex_local ex_small)) 7 = Some 0
   \<and> \<not> built (owns ex_heap) ex_heap (partition_obj ex_heap 4 ex_local ex_small)
          (partition_w [Tensor [2] [1, 2], Tensor [1] [3]] ex_local ex_small)
   \<and> unravel_obj ex_heap 6 [([1], 1), ([2], 2)]
     = (Inr 9, ex_heap @ [Arr 5 [1] [0], Arr 5 [2] [1, 2], Lst [7, 8]])
   \<and> buffer_of ex_heap 6 = Some 5
   \<and> buffer_of (snd (unravel_obj ex_heap 6 [([1], 1), ([2], 2)])) 8 = Some 5
   \<and> \<not> built (owns ex_heap) ex_heap (unravel_obj ex_heap 6 [([1], 1), ([2], 2)])
          (unravel [5, 6, 7] [([1], 1), ([2], 2)])"
proof -
  let ?ws = "[Tensor [2] [1, 2], Tensor [1] [3 :: real]]"
  let ?sk = "[([1], 1), ([2], 2)] :: (nat list \<times> nat) list"
  have v2: "unravel [5, 6, 7 :: real] ?sk = Inr [Tensor [1] [5], Tensor [2] [6, 7]]" by code_simp
  have v3: "partition_w ?ws ex_local ex_small = Inr [Tensor [1] [1], Tensor [1] [3]]" by code_simp
  have b1: "buffer_of ex_heap 1 = Some 0" by code_simp
  have b2: "buffer_of (snd (partition_obj ex_heap 4 ex_local ex_small)) 7 = Some 0" by code_simp
  have b3: "buffer_of ex_heap 6 = Some 5" by code_simp
  have b4: "buffer_of (snd (unravel_obj ex_heap 6 ?sk)) 8 = Some 5" by code_simp
  have l: "length ex_heap = 7" by (simp add: ex_heap_def)
  have n1: "\<not> built (owns ex_heap) ex_heap (partition_obj ex_heap 4 ex_local ex_small)
              (partition_w ?ws ex_local ex_small)"
    unfolding v3 ex_partition
    by (simp add: built_def new_arrays_def owns_def list_at_def view_at_def nth_append l)
  have n2: "\<not> built (owns ex_heap) ex_heap (unravel_obj ex_heap 6 ?sk) (unravel [5, 6, 7] ?sk)"
    unfolding v2 ex_unravel
    by (simp add: built_def new_arrays_def owns_def list_at_def view_at_def nth_append l)
  from ex_partition b1 b2 n1 ex_unravel b3 b4 n2 show ?thesis by blast
qed

end
